theory Spec2Isabelle
  imports Main "HOL-Library.Word" "HOL-Library.Multiset"
begin

unbundle bit_operations_syntax

section \<open>Self scaling hash tables (services/shared/common/hash.c)\<close>

text \<open>
  The embedding follows hash.c function by function.

  \<^item> \<open>IMG_UINT32\<close> is a 32-bit word, so \<open>uCount << 1\<close>, \<open>uSize << 1\<close> and
    \<open>uCount++\<close> wrap as they do in C. \<open>uintptr_t\<close> is taken as a 64-bit word
    (an LP64 kernel); \<open>size_t\<close> arguments are natural numbers.
  \<^item> A chain is the list of its buckets, head first: the \<open>pNext\<close> link of a bucket
    is the rest of the list, and \<open>NULL\<close> is the empty list. The slot array
    \<open>ppBucketTable\<close> is the list of its chains.
  \<^item> A key buffer is the list of the \<open>uintptr_t\<close> words it holds (the bucket
    declares \<open>uintptr_t k[]\<close>); a key of the table's key size is exactly the
    \<open>uKeySize\<close> bytes that \<open>OSCachedMemCopy\<close> copies into the bucket.
  \<^item> The allocator is outside the file: every \<open>OSAllocMem\<close> call takes its outcome
    as a boolean argument (\<open>True\<close>: a buffer was returned, \<open>False\<close>: \<open>NULL\<close>).
  \<^item> What stops the program is a value of type \<open>fault\<close>: the \<open>BUG()\<close>/\<open>abort()\<close>
    of \<open>_dec_ref\<close>, a division by zero in \<open>KEY_TO_INDEX\<close>, a write through a
    \<open>NULL\<close> bucket pointer, an access beyond the slot array.
  \<^item> \<open>PVR_DPF\<close>, \<open>PVR_ASSERT\<close>, \<open>OSDumpStack\<close> and \<open>_assert_bucket\<close> only
    log (release build) and have no counterpart. Table handles are non-\<open>NULL\<close>.
  \<^item> Names that start with an underscore in C lose it here
    (\<open>_Resize\<close> is \<open>Resize\<close>).
\<close>

type_synonym IMG_UINT32 = "32 word"
type_synonym uintptr_t = "64 word"

datatype fault = DivByZero | NullDeref | OutOfBounds | RefCountBug

text \<open>Modelled from the spec: the status type of pvrsrv_error.h is not under src/;
  only its success value \<open>PVRSRV_OK\<close> is told apart from the other codes.\<close>

datatype PVRSRV_ERROR = PVRSRV_OK | PVRSRV_ERROR_CODE nat

definition sizeof_uintptr_t :: nat where
  "sizeof_uintptr_t = 8"

definition BUCKET_SIG :: IMG_UINT32 where
  "BUCKET_SIG = 0xBEA57FED"

definition BUCKET_FREE :: IMG_UINT32 where
  "BUCKET_FREE = 0xBCE7DEAD"

record BUCKET =
  ui32Sig :: IMG_UINT32
  v :: uintptr_t
  k :: "uintptr_t list"

type_synonym HASH_FUNC = "nat \<Rightarrow> uintptr_t list \<Rightarrow> IMG_UINT32 \<Rightarrow> IMG_UINT32"
type_synonym HASH_KEY_COMP = "nat \<Rightarrow> uintptr_t list \<Rightarrow> uintptr_t list \<Rightarrow> bool"

record HASH_TABLE =
  uSize :: IMG_UINT32
  uCount :: IMG_UINT32
  uMinimumSize :: IMG_UINT32
  uKeySize :: IMG_UINT32
  pfnHashFunc :: HASH_FUNC
  pfnKeyComp :: HASH_KEY_COMP
  ppBucketTable :: "BUCKET list list"
  hRefCount :: "32 word"

definition PRIVATE_MAX :: "IMG_UINT32 \<Rightarrow> IMG_UINT32 \<Rightarrow> IMG_UINT32" where
  "PRIVATE_MAX a b = (if a > b then a else b)"

definition KEY_TO_INDEX :: "HASH_TABLE \<Rightarrow> uintptr_t list \<Rightarrow> IMG_UINT32 \<Rightarrow> fault + IMG_UINT32" where
  "KEY_TO_INDEX pHash key uSz =
     (if uSz = 0 then Inl DivByZero
      else Inr (pfnHashFunc pHash (unat (uKeySize pHash)) key uSz mod uSz))"

definition KEY_COMPARE :: "HASH_TABLE \<Rightarrow> uintptr_t list \<Rightarrow> uintptr_t list \<Rightarrow> bool" where
  "KEY_COMPARE pHash pKey1 pKey2 = pfnKeyComp pHash (unat (uKeySize pHash)) pKey1 pKey2"

subsection \<open>Reentrancy guard\<close>

text \<open>Modelled from the spec: \<open>OSAtomicRead\<close>, \<open>OSAtomicIncrement\<close> and
  \<open>OSAtomicDecrement\<close> (osfunc.h, not under src/) read the guard counter, add 1 to
  it and subtract 1 from it; \<open>BUG()\<close> and \<open>abort()\<close> end the program, here with the
  fault \<open>RefCountBug\<close>. \<open>_inc_ref\<close> only logs when the counter was not 0.\<close>

definition inc_ref :: "HASH_TABLE \<Rightarrow> HASH_TABLE" where
  "inc_ref pHash = pHash\<lparr>hRefCount := hRefCount pHash + 1\<rparr>"

definition dec_ref :: "HASH_TABLE \<Rightarrow> fault + HASH_TABLE" where
  "dec_ref pHash =
     (let iRef = hRefCount pHash;
          pHash' = pHash\<lparr>hRefCount := hRefCount pHash - 1\<rparr>
      in if 1 \<noteq> iRef then Inl RefCountBug else Inr pHash')"

subsection \<open>Default hash and compare strategy\<close>

text \<open>\<open>uHashPart\<close> is the value the loop body of \<open>HASH_Func_Default\<close> computes
  from one key word before adding it to \<open>uHashKey\<close>.\<close>

definition uHashPart :: "uintptr_t \<Rightarrow> IMG_UINT32" where
  "uHashPart p =
     (let h0 = (ucast p :: IMG_UINT32);
          h1 = h0 + push_bit 12 h0;
          h2 = h1 XOR drop_bit 22 h1;
          h3 = h2 + push_bit 4 h2;
          h4 = h3 XOR drop_bit 9 h3;
          h5 = h4 + push_bit 10 h4;
          h6 = h5 XOR drop_bit 2 h5;
          h7 = h6 + push_bit 7 h6
      in h7 XOR drop_bit 12 h7)"

fun HASH_Func_Default_loop :: "uintptr_t list \<Rightarrow> IMG_UINT32 \<Rightarrow> IMG_UINT32" where
  "HASH_Func_Default_loop [] uHashKey = uHashKey"
| "HASH_Func_Default_loop (p # ps) uHashKey =
     HASH_Func_Default_loop ps (uHashKey + uHashPart p)"

definition HASH_Func_Default :: HASH_FUNC where
  "HASH_Func_Default uKeySz pKey uHashTabLen =
     (let uKeyLen = unat (of_nat (uKeySz div sizeof_uintptr_t) :: IMG_UINT32)
      in HASH_Func_Default_loop (take uKeyLen pKey) 0)"

fun HASH_Key_Comp_Default_loop :: "uintptr_t list \<Rightarrow> uintptr_t list \<Rightarrow> bool" where
  "HASH_Key_Comp_Default_loop (p1 # ps1) (p2 # ps2) =
     (if p1 \<noteq> p2 then False else HASH_Key_Comp_Default_loop ps1 ps2)"
| "HASH_Key_Comp_Default_loop ps1 ps2 = True"

definition HASH_Key_Comp_Default :: HASH_KEY_COMP where
  "HASH_Key_Comp_Default uKeySz pKey1 pKey2 =
     (let uKeyLen = unat (of_nat (uKeySz div sizeof_uintptr_t) :: IMG_UINT32)
      in HASH_Key_Comp_Default_loop (take uKeyLen pKey1) (take uKeyLen pKey2))"

subsection \<open>Chains, rehash and resize\<close>

definition ChainInsert ::
  "HASH_TABLE \<Rightarrow> BUCKET \<Rightarrow> BUCKET list list \<Rightarrow> IMG_UINT32 \<Rightarrow> fault + BUCKET list list" where
  "ChainInsert pHash pBucket ppTable uSz =
     (case KEY_TO_INDEX pHash (k pBucket) uSz of
        Inl e \<Rightarrow> Inl e
      | Inr uIndex \<Rightarrow>
          if unat uIndex < length ppTable
          then Inr (ppTable[unat uIndex := pBucket # ppTable ! unat uIndex])
          else Inl OutOfBounds)"

fun Rehash_chain ::
  "HASH_TABLE \<Rightarrow> BUCKET list \<Rightarrow> BUCKET list list \<Rightarrow> IMG_UINT32 \<Rightarrow> fault + BUCKET list list" where
  "Rehash_chain pHash [] ppNewTable uNewSize = Inr ppNewTable"
| "Rehash_chain pHash (pBucket # pNextBucket) ppNewTable uNewSize =
     (case ChainInsert pHash pBucket ppNewTable uNewSize of
        Inl e \<Rightarrow> Inl e
      | Inr ppNewTable' \<Rightarrow> Rehash_chain pHash pNextBucket ppNewTable' uNewSize)"

fun Rehash_slots ::
  "HASH_TABLE \<Rightarrow> BUCKET list list \<Rightarrow> BUCKET list list \<Rightarrow> IMG_UINT32 \<Rightarrow> fault + BUCKET list list" where
  "Rehash_slots pHash [] ppNewTable uNewSize = Inr ppNewTable"
| "Rehash_slots pHash (chain # slots) ppNewTable uNewSize =
     (case Rehash_chain pHash chain ppNewTable uNewSize of
        Inl e \<Rightarrow> Inl e
      | Inr ppNewTable' \<Rightarrow> Rehash_slots pHash slots ppNewTable' uNewSize)"

definition Rehash ::
  "HASH_TABLE \<Rightarrow> BUCKET list list \<Rightarrow> IMG_UINT32 \<Rightarrow> BUCKET list list \<Rightarrow> IMG_UINT32
     \<Rightarrow> fault + BUCKET list list" where
  "Rehash pHash ppOldTable uOldSize ppNewTable uNewSize =
     (if length ppOldTable < unat uOldSize then Inl OutOfBounds
      else Rehash_slots pHash (take (unat uOldSize) ppOldTable) ppNewTable uNewSize)"

definition Resize :: "bool \<Rightarrow> HASH_TABLE \<Rightarrow> IMG_UINT32 \<Rightarrow> fault + (bool \<times> HASH_TABLE)" where
  "Resize alloc_table pHash uNewSize =
     (if uNewSize \<noteq> uSize pHash then
        if \<not> alloc_table then Inr (False, pHash)
        else
          (case Rehash pHash (ppBucketTable pHash) (uSize pHash)
                  (replicate (unat uNewSize) []) uNewSize of
             Inl e \<Rightarrow> Inl e
           | Inr ppNewTable \<Rightarrow>
               Inr (True, pHash\<lparr>ppBucketTable := ppNewTable, uSize := uNewSize\<rparr>))
      else Inr (True, pHash))"

subsection \<open>Creation and destruction\<close>

definition HASH_Create_Extended ::
  "bool \<Rightarrow> bool \<Rightarrow> IMG_UINT32 \<Rightarrow> nat \<Rightarrow> HASH_FUNC option \<Rightarrow> HASH_KEY_COMP option
     \<Rightarrow> HASH_TABLE option" where
  "HASH_Create_Extended alloc_hash alloc_table uInitialLen uKeySz pfnHash pfnComp =
     (case (pfnHash, pfnComp) of
        (Some hashFn, Some compFn) \<Rightarrow>
          if uInitialLen = 0 \<or> uKeySz = 0 then None
          else if \<not> alloc_hash then None
          else if \<not> alloc_table then None
          else Some \<lparr>uSize = uInitialLen, uCount = 0, uMinimumSize = uInitialLen,
                     uKeySize = of_nat uKeySz, pfnHashFunc = hashFn, pfnKeyComp = compFn,
                     ppBucketTable = replicate (unat uInitialLen) [], hRefCount = 0\<rparr>
      | _ \<Rightarrow> None)"

definition HASH_Create :: "bool \<Rightarrow> bool \<Rightarrow> IMG_UINT32 \<Rightarrow> HASH_TABLE option" where
  "HASH_Create alloc_hash alloc_table uInitialLen =
     HASH_Create_Extended alloc_hash alloc_table uInitialLen sizeof_uintptr_t
       (Some HASH_Func_Default) (Some HASH_Key_Comp_Default)"

text \<open>The leak loop of \<open>HASH_Delete\<close>: \<open>i\<close> is the loop index, the third argument
  the number of iterations left. The result lists the buckets handed to
  \<open>OSFreeMem\<close>, each as it is at that moment (tag overwritten with \<open>BUCKET_FREE\<close>).\<close>

fun Delete_loop :: "BUCKET list list \<Rightarrow> nat \<Rightarrow> nat \<Rightarrow> fault + BUCKET list" where
  "Delete_loop ppTable i 0 = Inr []"
| "Delete_loop ppTable i (Suc n) =
     (if length ppTable \<le> i then Inl OutOfBounds
      else case ppTable ! i of
        [] \<Rightarrow> Inl NullDeref
      | pBucket # _ \<Rightarrow>
          (case Delete_loop ppTable (Suc i) n of
             Inl e \<Rightarrow> Inl e
           | Inr freed \<Rightarrow> Inr (pBucket\<lparr>ui32Sig := BUCKET_FREE\<rparr> # freed)))"

text \<open>\<open>HASH_Delete\<close> returns the buckets it freed; on \<open>Inr\<close> the slot array and the
  table structure have been freed after them.\<close>

definition HASH_Delete :: "HASH_TABLE \<Rightarrow> fault + BUCKET list" where
  "HASH_Delete pHash =
     (let pHash1 = inc_ref pHash in
      if uCount pHash1 \<noteq> 0
      then (let uiEntriesLeft = uCount pHash1
            in Delete_loop (ppBucketTable pHash1) 0 (unat uiEntriesLeft))
      else Inr [])"

subsection \<open>Insert, remove, retrieve, iterate\<close>

text \<open>\<open>alloc_bucket\<close> is the outcome of the bucket allocation, \<open>alloc_table\<close>
  that of the slot array \<open>_Resize\<close> may ask for. \<open>OSCachedMemCopy\<close> copies the
  \<open>uKeySize\<close> bytes of the key into the bucket: the bucket's key is the key
  passed in. The result of \<open>_Resize\<close> is ignored, as in the source.\<close>

definition HASH_Insert_Extended ::
  "bool \<Rightarrow> bool \<Rightarrow> HASH_TABLE \<Rightarrow> uintptr_t list \<Rightarrow> uintptr_t \<Rightarrow> fault + (bool \<times> HASH_TABLE)" where
  "HASH_Insert_Extended alloc_bucket alloc_table pHash pKey val =
     (let pHash1 = inc_ref pHash in
      if \<not> alloc_bucket then Inr (False, pHash1)
      else
        let pBucket = \<lparr>ui32Sig = BUCKET_SIG, v = val, k = pKey\<rparr> in
        case ChainInsert pHash1 pBucket (ppBucketTable pHash1) (uSize pHash1) of
          Inl e \<Rightarrow> Inl e
        | Inr ppTable \<Rightarrow>
            let pHash2 = pHash1\<lparr>ppBucketTable := ppTable, uCount := uCount pHash1 + 1\<rparr> in
            case (if push_bit 1 (uCount pHash2) > uSize pHash2
                  then Resize alloc_table pHash2 (push_bit 1 (uSize pHash2))
                  else Inr (True, pHash2)) of
              Inl e \<Rightarrow> Inl e
            | Inr (_, pHash3) \<Rightarrow>
                (case dec_ref pHash3 of
                   Inl e \<Rightarrow> Inl e
                 | Inr pHash4 \<Rightarrow> Inr (True, pHash4)))"

definition HASH_Insert ::
  "bool \<Rightarrow> bool \<Rightarrow> HASH_TABLE \<Rightarrow> uintptr_t \<Rightarrow> uintptr_t \<Rightarrow> fault + (bool \<times> HASH_TABLE)" where
  "HASH_Insert alloc_bucket alloc_table pHash key val =
     HASH_Insert_Extended alloc_bucket alloc_table pHash [key] val"

text \<open>The chain walk of \<open>HASH_Remove_Extended\<close> with its predecessor-aware cursor:
  the first matching bucket is unlinked; the result is that bucket and the chain
  without it.\<close>

fun Remove_chain ::
  "HASH_TABLE \<Rightarrow> uintptr_t list \<Rightarrow> BUCKET list \<Rightarrow> (BUCKET \<times> BUCKET list) option" where
  "Remove_chain pHash pKey [] = None"
| "Remove_chain pHash pKey (pBucket # pNext) =
     (if KEY_COMPARE pHash (k pBucket) pKey then Some (pBucket, pNext)
      else (case Remove_chain pHash pKey pNext of
              None \<Rightarrow> None
            | Some (found, pNext') \<Rightarrow> Some (found, pBucket # pNext')))"

definition HASH_Remove_Extended ::
  "bool \<Rightarrow> HASH_TABLE \<Rightarrow> uintptr_t list \<Rightarrow> fault + (uintptr_t \<times> HASH_TABLE)" where
  "HASH_Remove_Extended alloc_table pHash pKey =
     (let pHash1 = inc_ref pHash in
      case KEY_TO_INDEX pHash1 pKey (uSize pHash1) of
        Inl e \<Rightarrow> Inl e
      | Inr uIndex \<Rightarrow>
          if length (ppBucketTable pHash1) \<le> unat uIndex then Inl OutOfBounds
          else
            (case Remove_chain pHash1 pKey (ppBucketTable pHash1 ! unat uIndex) of
               Some (pBucket, chain') \<Rightarrow>
                 let pHash2 = pHash1\<lparr>ppBucketTable := (ppBucketTable pHash1)[unat uIndex := chain'],
                                     uCount := uCount pHash1 - 1\<rparr> in
                 (case (if uSize pHash2 > push_bit 2 (uCount pHash2) \<and>
                           uSize pHash2 > uMinimumSize pHash2
                        then Resize alloc_table pHash2
                               (PRIVATE_MAX (drop_bit 1 (uSize pHash2)) (uMinimumSize pHash2))
                        else Inr (True, pHash2)) of
                    Inl e \<Rightarrow> Inl e
                  | Inr (_, pHash3) \<Rightarrow>
                      (case dec_ref pHash3 of
                         Inl e \<Rightarrow> Inl e
                       | Inr pHash4 \<Rightarrow> Inr (v pBucket, pHash4)))
             | None \<Rightarrow>
                 (case dec_ref pHash1 of
                    Inl e \<Rightarrow> Inl e
                  | Inr pHash2 \<Rightarrow> Inr (0, pHash2))))"

definition HASH_Remove ::
  "bool \<Rightarrow> HASH_TABLE \<Rightarrow> uintptr_t \<Rightarrow> fault + (uintptr_t \<times> HASH_TABLE)" where
  "HASH_Remove alloc_table pHash key = HASH_Remove_Extended alloc_table pHash [key]"

fun Retrieve_chain :: "HASH_TABLE \<Rightarrow> uintptr_t list \<Rightarrow> BUCKET list \<Rightarrow> BUCKET option" where
  "Retrieve_chain pHash pKey [] = None"
| "Retrieve_chain pHash pKey (pBucket # pNext) =
     (if KEY_COMPARE pHash (k pBucket) pKey then Some pBucket
      else Retrieve_chain pHash pKey pNext)"

definition HASH_Retrieve_Extended ::
  "HASH_TABLE \<Rightarrow> uintptr_t list \<Rightarrow> fault + (uintptr_t \<times> HASH_TABLE)" where
  "HASH_Retrieve_Extended pHash pKey =
     (let pHash1 = inc_ref pHash in
      case KEY_TO_INDEX pHash1 pKey (uSize pHash1) of
        Inl e \<Rightarrow> Inl e
      | Inr uIndex \<Rightarrow>
          if length (ppBucketTable pHash1) \<le> unat uIndex then Inl OutOfBounds
          else
            (case Retrieve_chain pHash1 pKey (ppBucketTable pHash1 ! unat uIndex) of
               Some pBucket \<Rightarrow>
                 (case dec_ref pHash1 of
                    Inl e \<Rightarrow> Inl e
                  | Inr pHash2 \<Rightarrow> Inr (v pBucket, pHash2))
             | None \<Rightarrow>
                 (case dec_ref pHash1 of
                    Inl e \<Rightarrow> Inl e
                  | Inr pHash2 \<Rightarrow> Inr (0, pHash2))))"

definition HASH_Retrieve :: "HASH_TABLE \<Rightarrow> uintptr_t \<Rightarrow> fault + (uintptr_t \<times> HASH_TABLE)" where
  "HASH_Retrieve pHash key = HASH_Retrieve_Extended pHash [key]"

text \<open>The visitor of \<open>HASH_Iterate\<close> is a C function with effects of its own: it
  takes and returns its own state \<open>'s\<close>. It receives the first word of the key and
  the value. \<open>Iterate_chain\<close> is the inner \<open>while\<close> loop; its \<open>Inl\<close> is the early
  return with the callback's status.\<close>

type_synonym 's HASH_pfnCallback = "'s \<Rightarrow> uintptr_t \<Rightarrow> uintptr_t \<Rightarrow> PVRSRV_ERROR \<times> 's"

fun Iterate_chain :: "'s HASH_pfnCallback \<Rightarrow> 's \<Rightarrow> BUCKET list \<Rightarrow> (PVRSRV_ERROR \<times> 's) + 's" where
  "Iterate_chain pfnCallback s [] = Inr s"
| "Iterate_chain pfnCallback s (pBucket # pNextBucket) =
     (case pfnCallback s (hd (k pBucket)) (v pBucket) of
        (eError, s') \<Rightarrow>
          if eError \<noteq> PVRSRV_OK then Inl (eError, s')
          else Iterate_chain pfnCallback s' pNextBucket)"

fun Iterate_slots ::
  "'s HASH_pfnCallback \<Rightarrow> 's \<Rightarrow> BUCKET list list \<Rightarrow> (PVRSRV_ERROR \<times> 's) + 's" where
  "Iterate_slots pfnCallback s [] = Inr s"
| "Iterate_slots pfnCallback s (chain # slots) =
     (case Iterate_chain pfnCallback s chain of
        Inl r \<Rightarrow> Inl r
      | Inr s' \<Rightarrow> Iterate_slots pfnCallback s' slots)"

definition HASH_Iterate ::
  "HASH_TABLE \<Rightarrow> 's HASH_pfnCallback \<Rightarrow> 's \<Rightarrow> fault + (PVRSRV_ERROR \<times> 's \<times> HASH_TABLE)" where
  "HASH_Iterate pHash pfnCallback s =
     (let pHash1 = inc_ref pHash in
      if length (ppBucketTable pHash1) < unat (uSize pHash1) then Inl OutOfBounds
      else
        (case Iterate_slots pfnCallback s (take (unat (uSize pHash1)) (ppBucketTable pHash1)) of
           Inl (eError, s') \<Rightarrow>
             (case dec_ref pHash1 of
                Inl e \<Rightarrow> Inl e
              | Inr pHash2 \<Rightarrow> Inr (eError, s', pHash2))
         | Inr s' \<Rightarrow>
             (case dec_ref pHash1 of
                Inl e \<Rightarrow> Inl e
              | Inr pHash2 \<Rightarrow> Inr (PVRSRV_OK, s', pHash2))))"

section \<open>Derived notions\<close>

text \<open>The live entries of a table, slot by slot and head first; the slot a key
  hashes to in an array of \<open>uSz\<close> entries; two tables that share their strategy
  and key size; and the array \<open>_Rehash\<close> produces, written in closed form: every
  bucket of \<open>bs\<close> is prepended, in turn, to the chain of its slot.\<close>

definition all_buckets :: "HASH_TABLE \<Rightarrow> BUCKET list" where
  "all_buckets t = concat (ppBucketTable t)"

definition slot_of :: "HASH_TABLE \<Rightarrow> IMG_UINT32 \<Rightarrow> uintptr_t list \<Rightarrow> nat" where
  "slot_of pHash uSz key = unat (pfnHashFunc pHash (unat (uKeySize pHash)) key uSz mod uSz)"

definition same_strategy :: "HASH_TABLE \<Rightarrow> HASH_TABLE \<Rightarrow> bool" where
  "same_strategy t t' \<longleftrightarrow>
     pfnHashFunc t' = pfnHashFunc t \<and> pfnKeyComp t' = pfnKeyComp t \<and> uKeySize t' = uKeySize t"

definition distribute :: "HASH_TABLE \<Rightarrow> IMG_UINT32 \<Rightarrow> BUCKET list \<Rightarrow> BUCKET list list \<Rightarrow> BUCKET list list" where
  "distribute pHash uSz bs ppTable =
     map (\<lambda>j. rev (filter (\<lambda>b. slot_of pHash uSz (k b) = j) bs) @ ppTable ! j) [0..<length ppTable]"

text \<open>For \<open>HASH_Iterate\<close>: the visitor's state after it has been called on each
  bucket of a list in turn, and the status its call number \<open>n\<close> (from 0) returns.\<close>

fun callback_state :: "'s HASH_pfnCallback \<Rightarrow> 's \<Rightarrow> BUCKET list \<Rightarrow> 's" where
  "callback_state cb s [] = s"
| "callback_state cb s (b # bs) = callback_state cb (snd (cb s (hd (k b)) (v b))) bs"

definition status_at :: "'s HASH_pfnCallback \<Rightarrow> 's \<Rightarrow> BUCKET list \<Rightarrow> nat \<Rightarrow> PVRSRV_ERROR" where
  "status_at cb s bs n =
     fst (cb (callback_state cb s (take n bs)) (hd (k (bs ! n))) (v (bs ! n)))"

text \<open>The data-model conditions the theorems refer to: the slot array has \<open>uSize\<close>
  entries; \<open>uCount\<close> is the number of live entries modulo \<open>2^32\<close>; the live
  entries a key matches under the table's comparison; whether the chain of the
  key's slot holds a match (what remove and retrieve find).\<close>

definition table_shape :: "HASH_TABLE \<Rightarrow> bool" where
  "table_shape t \<longleftrightarrow> length (ppBucketTable t) = unat (uSize t)"

definition count_consistent :: "HASH_TABLE \<Rightarrow> bool" where
  "count_consistent t \<longleftrightarrow> uCount t = of_nat (length (all_buckets t))"

definition matching :: "HASH_TABLE \<Rightarrow> uintptr_t list \<Rightarrow> BUCKET list" where
  "matching t key = filter (\<lambda>b. KEY_COMPARE t (k b) key) (all_buckets t)"

definition finds :: "HASH_TABLE \<Rightarrow> uintptr_t list \<Rightarrow> bool" where
  "finds t key \<longleftrightarrow>
     (\<exists>b \<in> set (ppBucketTable t ! slot_of t (uSize t) key). KEY_COMPARE t (k b) key)"

text \<open>The table after the bucket for \<open>(key, val)\<close> has been put at the head of its
  chain and counted; after the first match on the key's chain has been unlinked
  and uncounted; and after a rehash into \<open>uNewSize\<close> slots. The conditions under
  which insert and remove call \<open>_Resize\<close>, and the size remove asks for.\<close>

definition inserted :: "HASH_TABLE \<Rightarrow> uintptr_t list \<Rightarrow> uintptr_t \<Rightarrow> HASH_TABLE" where
  "inserted t key val =
     t\<lparr>ppBucketTable :=
         (ppBucketTable t)[slot_of t (uSize t) key :=
            \<lparr>ui32Sig = BUCKET_SIG, v = val, k = key\<rparr> # ppBucketTable t ! slot_of t (uSize t) key],
       uCount := uCount t + 1\<rparr>"

definition rehashed :: "HASH_TABLE \<Rightarrow> IMG_UINT32 \<Rightarrow> HASH_TABLE" where
  "rehashed t uNewSize =
     t\<lparr>ppBucketTable := distribute t uNewSize (all_buckets t) (replicate (unat uNewSize) []),
       uSize := uNewSize\<rparr>"

definition removed :: "HASH_TABLE \<Rightarrow> uintptr_t list \<Rightarrow> HASH_TABLE" where
  "removed t key =
     (case Remove_chain t key (ppBucketTable t ! slot_of t (uSize t) key) of
        None \<Rightarrow> t
      | Some (pBucket, chain') \<Rightarrow>
          t\<lparr>ppBucketTable := (ppBucketTable t)[slot_of t (uSize t) key := chain'],
            uCount := uCount t - 1\<rparr>)"

definition grow_due :: "HASH_TABLE \<Rightarrow> bool" where
  "grow_due t \<longleftrightarrow> uSize t < push_bit 1 (uCount t + 1)"

definition shrink_due :: "HASH_TABLE \<Rightarrow> bool" where
  "shrink_due t \<longleftrightarrow>
     push_bit 2 (uCount t - 1) < uSize t \<and> uMinimumSize t < uSize t"

definition shrunk_size :: "HASH_TABLE \<Rightarrow> IMG_UINT32" where
  "shrunk_size t = PRIVATE_MAX (drop_bit 1 (uSize t)) (uMinimumSize t)"

text \<open>Operation sequences: each operation carries the outcomes of the allocations
  it may request (the bucket, the new slot array).\<close>

datatype hash_op =
    Insert "uintptr_t list" uintptr_t bool bool
  | Remove "uintptr_t list" bool

fun run_op :: "hash_op \<Rightarrow> HASH_TABLE \<Rightarrow> fault + HASH_TABLE" where
  "run_op (Insert key val alloc_bucket alloc_table) t =
     (case HASH_Insert_Extended alloc_bucket alloc_table t key val of
        Inl e \<Rightarrow> Inl e
      | Inr (_, t') \<Rightarrow> Inr t')"
| "run_op (Remove key alloc_table) t =
     (case HASH_Remove_Extended alloc_table t key of
        Inl e \<Rightarrow> Inl e
      | Inr (_, t') \<Rightarrow> Inr t')"

fun run_ops :: "hash_op list \<Rightarrow> HASH_TABLE \<Rightarrow> fault + HASH_TABLE" where
  "run_ops [] t = Inr t"
| "run_ops (x # xs) t =
     (case run_op x t of Inl e \<Rightarrow> Inl e | Inr t' \<Rightarrow> run_ops xs t')"

definition table_inv :: "HASH_TABLE \<Rightarrow> bool" where
  "table_inv t \<longleftrightarrow> table_shape t \<and> uMinimumSize t \<noteq> 0 \<and> count_consistent t"

text \<open>Fixtures: the table \<open>HASH_Create(4)\<close> returns, and the tables it becomes
  under a few inserts.\<close>

definition tab_empty4 :: HASH_TABLE where
  "tab_empty4 =
     \<lparr>uSize = 4, uCount = 0, uMinimumSize = 4, uKeySize = 8,
      pfnHashFunc = HASH_Func_Default, pfnKeyComp = HASH_Key_Comp_Default,
      ppBucketTable = [[], [], [], []], hRefCount = 0\<rparr>"

definition tab_0_9 :: HASH_TABLE where
  "tab_0_9 =
     tab_empty4\<lparr>uCount := 2,
       ppBucketTable := [[\<lparr>ui32Sig = BUCKET_SIG, v = 8, k = [9]\<rparr>,
                          \<lparr>ui32Sig = BUCKET_SIG, v = 7, k = [0]\<rparr>], [], [], []]\<rparr>"

definition tab_5_5 :: HASH_TABLE where
  "tab_5_5 =
     tab_empty4\<lparr>uCount := 2,
       ppBucketTable := [[], [\<lparr>ui32Sig = BUCKET_SIG, v = 2, k = [5]\<rparr>,
                              \<lparr>ui32Sig = BUCKET_SIG, v = 1, k = [5]\<rparr>], [], []]\<rparr>"

definition tab_5 :: HASH_TABLE where
  "tab_5 =
     tab_empty4\<lparr>uCount := 1,
       ppBucketTable := [[], [\<lparr>ui32Sig = BUCKET_SIG, v = 1, k = [5]\<rparr>], [], []]\<rparr>"

definition tab_0 :: HASH_TABLE where
  "tab_0 =
     tab_empty4\<lparr>uCount := 1,
       ppBucketTable := [[\<lparr>ui32Sig = BUCKET_SIG, v = 7, k = [0]\<rparr>], [], [], []]\<rparr>"

text \<open>The tables \<open>HASH_Create(1)\<close> and \<open>HASH_Create(2)\<close> become when the same key is
  inserted twice, and tables of 8 slots reached from \<open>HASH_Create(4)\<close>.\<close>

definition tab_empty1 :: HASH_TABLE where
  "tab_empty1 = tab_empty4\<lparr>uSize := 1, uMinimumSize := 1, ppBucketTable := [[]]\<rparr>"

definition tab1_5 :: HASH_TABLE where
  "tab1_5 =
     tab_empty1\<lparr>uSize := 2, uCount := 1,
       ppBucketTable := [[], [\<lparr>ui32Sig = BUCKET_SIG, v = 1, k = [5]\<rparr>]]\<rparr>"

definition tab1_5_5 :: HASH_TABLE where
  "tab1_5_5 =
     tab_empty1\<lparr>uSize := 4, uCount := 2,
       ppBucketTable := [[], [\<lparr>ui32Sig = BUCKET_SIG, v = 1, k = [5]\<rparr>,
                              \<lparr>ui32Sig = BUCKET_SIG, v = 2, k = [5]\<rparr>], [], []]\<rparr>"

definition tab2_3 :: HASH_TABLE where
  "tab2_3 =
     tab_empty4\<lparr>uSize := 2, uMinimumSize := 2, uCount := 1,
       ppBucketTable := [[], [\<lparr>ui32Sig = BUCKET_SIG, v = 1, k = [3]\<rparr>]]\<rparr>"

definition tab2_3_3 :: HASH_TABLE where
  "tab2_3_3 =
     tab2_3\<lparr>uSize := 4, uCount := 2,
       ppBucketTable := [[], [\<lparr>ui32Sig = BUCKET_SIG, v = 1, k = [3]\<rparr>,
                              \<lparr>ui32Sig = BUCKET_SIG, v = 2, k = [3]\<rparr>], [], []]\<rparr>"

definition tab2_3_6 :: HASH_TABLE where
  "tab2_3_6 =
     tab2_3\<lparr>uSize := 4, uCount := 2,
       ppBucketTable := [[], [\<lparr>ui32Sig = BUCKET_SIG, v = 1, k = [3]\<rparr>],
                         [\<lparr>ui32Sig = BUCKET_SIG, v = 9, k = [6]\<rparr>], []]\<rparr>"

definition tab8_5_5_6 :: HASH_TABLE where
  "tab8_5_5_6 =
     tab_empty4\<lparr>uSize := 8, uCount := 3,
       ppBucketTable := [[], [\<lparr>ui32Sig = BUCKET_SIG, v = 1, k = [5]\<rparr>,
                              \<lparr>ui32Sig = BUCKET_SIG, v = 2, k = [5]\<rparr>],
                         [\<lparr>ui32Sig = BUCKET_SIG, v = 9, k = [6]\<rparr>], [], [], [], [], []]\<rparr>"

definition tab8_0_9_5 :: HASH_TABLE where
  "tab8_0_9_5 =
     tab_empty4\<lparr>uSize := 8, uCount := 3,
       ppBucketTable := [[\<lparr>ui32Sig = BUCKET_SIG, v = 7, k = [0]\<rparr>],
                         [\<lparr>ui32Sig = BUCKET_SIG, v = 1, k = [5]\<rparr>], [], [],
                         [\<lparr>ui32Sig = BUCKET_SIG, v = 8, k = [9]\<rparr>], [], [], []]\<rparr>"

definition tab8_0_5 :: HASH_TABLE where
  "tab8_0_5 =
     tab_empty4\<lparr>uSize := 8, uCount := 2,
       ppBucketTable := [[\<lparr>ui32Sig = BUCKET_SIG, v = 7, k = [0]\<rparr>],
                         [\<lparr>ui32Sig = BUCKET_SIG, v = 1, k = [5]\<rparr>], [], [], [], [], [], []]\<rparr>"

section \<open>Evaluation of the default strategy\<close>

text \<open>The default strategy on keys of one word, as \<open>HASH_Create\<close> sets it up, and the
  hash of the keys the fixtures use.\<close>

lemma HASH_Func_Default_word: "HASH_Func_Default 8 [x] n = uHashPart x"
  by (simp add: HASH_Func_Default_def sizeof_uintptr_t_def)

lemma HASH_Key_Comp_Default_word: "HASH_Key_Comp_Default 8 [x] [y] \<longleftrightarrow> x = y"
  by (simp add: HASH_Key_Comp_Default_def sizeof_uintptr_t_def)

lemma uHashPart_values:
  "uHashPart 0 = 0" "uHashPart 3 = 231855697" "uHashPart 5 = 311529801"
  "uHashPart 6 = 463711522" "uHashPart 9 = 369291516"
  by (simp_all add: uHashPart_def)

lemmas hash_eval_defs =
  KEY_TO_INDEX_def KEY_COMPARE_def HASH_Func_Default_word HASH_Key_Comp_Default_word
  uHashPart_values

lemmas op_eval_defs =
  HASH_Create_def HASH_Create_Extended_def HASH_Insert_def HASH_Insert_Extended_def
  HASH_Retrieve_def HASH_Retrieve_Extended_def HASH_Remove_def HASH_Remove_Extended_def
  HASH_Delete_def HASH_Iterate_def inc_ref_def dec_ref_def ChainInsert_def Resize_def
  Rehash_def PRIVATE_MAX_def

lemmas fixture_defs =
  tab_empty4_def tab_0_9_def tab_5_5_def tab_5_def tab_0_def tab_empty1_def tab1_5_def
  tab1_5_5_def tab2_3_def tab2_3_3_def tab2_3_6_def tab8_5_5_6_def tab8_0_9_5_def tab8_0_5_def

lemmas derived_eval_defs =
  all_buckets_def slot_of_def table_shape_def matching_def finds_def

lemma replicate_eval: "replicate n x = (if n = 0 then [] else x # replicate (n - 1) x)"
  by (cases n) simp_all

lemma Delete_loop_eval:
  "Delete_loop ppTable i n =
     (if n = 0 then Inr []
      else if length ppTable \<le> i then Inl OutOfBounds
      else case ppTable ! i of
        [] \<Rightarrow> Inl NullDeref
      | pBucket # _ \<Rightarrow>
          (case Delete_loop ppTable (Suc i) (n - 1) of
             Inl e \<Rightarrow> Inl e
           | Inr freed \<Rightarrow> Inr (pBucket\<lparr>ui32Sig := BUCKET_FREE\<rparr> # freed)))"
  by (cases n; cases "ppTable ! i") simp_all

lemma create4: "HASH_Create True True 4 = Some tab_empty4"
  by (simp add: op_eval_defs sizeof_uintptr_t_def tab_empty4_def replicate_eval)

lemma insert_0_9:
  "HASH_Insert True True tab_empty4 0 7 = Inr (True, tab_0)"
  "HASH_Insert True True tab_0 9 8 = Inr (True, tab_0_9)"
  by (simp_all add: op_eval_defs hash_eval_defs fixture_defs)

section \<open>Slots and rehash\<close>

lemma slot_of_less: "uSz \<noteq> 0 \<Longrightarrow> slot_of t uSz key < unat uSz"
  unfolding slot_of_def
  by (simp add: unat_mono word_mod_less_divisor word_neq_0_conv)

lemma KEY_TO_INDEX_Inr:
  "uSz \<noteq> 0 \<Longrightarrow> \<exists>i. KEY_TO_INDEX t key uSz = Inr i \<and> unat i = slot_of t uSz key"
  by (simp add: KEY_TO_INDEX_def slot_of_def)

lemma KEY_TO_INDEX_zero: "KEY_TO_INDEX t key 0 = Inl DivByZero"
  by (simp add: KEY_TO_INDEX_def)

lemma same_strategy_slot_of: "same_strategy t t' \<Longrightarrow> slot_of t' = slot_of t"
  by (simp add: same_strategy_def slot_of_def fun_eq_iff)

lemma same_strategy_KEY_TO_INDEX: "same_strategy t t' \<Longrightarrow> KEY_TO_INDEX t' = KEY_TO_INDEX t"
  by (simp add: same_strategy_def KEY_TO_INDEX_def fun_eq_iff)

lemma same_strategy_KEY_COMPARE: "same_strategy t t' \<Longrightarrow> KEY_COMPARE t' = KEY_COMPARE t"
  by (simp add: same_strategy_def KEY_COMPARE_def fun_eq_iff)

lemma ChainInsert_Inr:
  assumes "uSz \<noteq> 0" and "slot_of t uSz (k b) < length tbl"
  shows "ChainInsert t b tbl uSz =
           Inr (tbl[slot_of t uSz (k b) := b # tbl ! slot_of t uSz (k b)])"
  using assms KEY_TO_INDEX_Inr [of uSz t "k b"]
  by (auto simp: ChainInsert_def)

lemma ChainInsert_success:
  assumes "ChainInsert t b tbl uSz = Inr tbl'"
  shows "uSz \<noteq> 0 \<and> slot_of t uSz (k b) < length tbl \<and>
         tbl' = tbl[slot_of t uSz (k b) := b # tbl ! slot_of t uSz (k b)]"
  using assms
  by (auto simp: ChainInsert_def KEY_TO_INDEX_def slot_of_def split: if_splits)

lemma distribute_Nil: "distribute t uSz [] tbl = tbl"
  by (simp add: distribute_def map_nth)

lemma length_distribute: "length (distribute t uSz bs tbl) = length tbl"
  by (simp add: distribute_def)

lemma nth_distribute:
  "j < length tbl \<Longrightarrow>
   distribute t uSz bs tbl ! j = rev (filter (\<lambda>b. slot_of t uSz (k b) = j) bs) @ tbl ! j"
  by (simp add: distribute_def)

lemma distribute_Cons:
  assumes "slot_of t uSz (k b) < length tbl"
  shows "distribute t uSz bs (tbl[slot_of t uSz (k b) := b # tbl ! slot_of t uSz (k b)])
           = distribute t uSz (b # bs) tbl"
  by (rule nth_equalityI) (auto simp: length_distribute nth_distribute nth_list_update)

lemma distribute_append:
  "distribute t uSz cs (distribute t uSz bs tbl) = distribute t uSz (bs @ cs) tbl"
  by (rule nth_equalityI) (auto simp: length_distribute nth_distribute)

lemma Rehash_chain_distribute:
  assumes "uSz \<noteq> 0" and "length tbl = unat uSz"
  shows "Rehash_chain t bs tbl uSz = Inr (distribute t uSz bs tbl)"
  using assms(2)
proof (induction bs arbitrary: tbl)
  case Nil
  show ?case by (simp add: distribute_Nil)
next
  case (Cons b bs)
  have lt: "slot_of t uSz (k b) < length tbl"
    using slot_of_less [OF assms(1)] Cons.prems by simp
  show ?case
    using Cons.IH [of "tbl[slot_of t uSz (k b) := b # tbl ! slot_of t uSz (k b)]"] Cons.prems
    by (simp add: ChainInsert_Inr [OF assms(1) lt] distribute_Cons [OF lt])
qed

lemma Rehash_slots_distribute:
  assumes "uSz \<noteq> 0" and "length tbl = unat uSz"
  shows "Rehash_slots t slots tbl uSz = Inr (distribute t uSz (concat slots) tbl)"
  using assms(2)
proof (induction slots arbitrary: tbl)
  case Nil
  show ?case by (simp add: distribute_Nil)
next
  case (Cons c slots)
  show ?case
    using Cons.IH [of "distribute t uSz c tbl"] Cons.prems
    by (simp add: Rehash_chain_distribute [OF assms(1)] length_distribute distribute_append)
qed

lemma Resize_grow_Inr:
  assumes "uNewSize \<noteq> 0" and "uNewSize \<noteq> uSize t" and "length (ppBucketTable t) = unat (uSize t)"
  shows "Resize True t uNewSize =
           Inr (True, t\<lparr>ppBucketTable :=
                          distribute t uNewSize (concat (ppBucketTable t)) (replicate (unat uNewSize) []),
                        uSize := uNewSize\<rparr>)"
  using assms
  by (simp add: Resize_def Rehash_def Rehash_slots_distribute)

lemma mset_concat_update:
  assumes "i < length tbl"
  shows "mset (concat (tbl[i := b # tbl ! i])) = add_mset b (mset (concat tbl))"
proof -
  have "mset (concat (tbl[i := b # tbl ! i]))
          = mset (concat (take i tbl @ (b # tbl ! i) # drop (Suc i) tbl))"
    by (simp only: upd_conv_take_nth_drop [OF assms])
  also have "\<dots> = add_mset b (mset (concat (take i tbl @ tbl ! i # drop (Suc i) tbl)))"
    by simp
  also have "\<dots> = add_mset b (mset (concat tbl))"
    by (simp only: id_take_nth_drop [OF assms, symmetric])
  finally show ?thesis .
qed

lemma mset_concat_distribute:
  assumes "uSz \<noteq> 0" and "length tbl = unat uSz"
  shows "mset (concat (distribute t uSz bs tbl)) = mset bs + mset (concat tbl)"
  using assms(2)
proof (induction bs arbitrary: tbl)
  case Nil
  show ?case by (simp add: distribute_Nil)
next
  case (Cons b bs)
  have lt: "slot_of t uSz (k b) < length tbl"
    using slot_of_less [OF assms(1)] Cons.prems by simp
  show ?case
    using Cons.IH [of "tbl[slot_of t uSz (k b) := b # tbl ! slot_of t uSz (k b)]"] Cons.prems
    by (simp add: distribute_Cons [OF lt, symmetric] mset_concat_update [OF lt])
qed

lemma concat_replicate_Nil: "concat (replicate n []) = []"
  by (induction n) simp_all

section \<open>Resize\<close>

text \<open>C8. \<open>_Resize\<close> to the current size returns success and leaves the table as
  it is, whatever the allocator would do; and when the allocation of the new slot
  array fails, \<open>_Resize\<close> returns failure (success only in the no-op case) with
  the very same table: size, slot array and entries.\<close>

theorem Resize_noop_or_alloc_failure:
  "Resize alloc_table pHash (uSize pHash) = Inr (True, pHash) \<and>
   Resize False pHash uNewSize = Inr (uNewSize = uSize pHash, pHash)"
  by (simp add: Resize_def)

section \<open>Allocation failure in insert\<close>

text \<open>C4. When the bucket allocation fails, \<open>HASH_Insert_Extended\<close> returns
  \<open>IMG_FALSE\<close> with count and chains untouched, but it returns before \<open>_dec_ref\<close>:
  the guard counter stays one above its value before the call. On the table of
  \<open>HASH_Create(4)\<close> the counter is left at 1, and the next retrieve on that table
  ends in the \<open>BUG()\<close> of \<open>_dec_ref\<close>.\<close>

theorem insert_alloc_failure_leaves_guard_held:
  "HASH_Insert_Extended False alloc_table pHash pKey val
     = Inr (False, pHash\<lparr>hRefCount := hRefCount pHash + 1\<rparr>) \<and>
   hRefCount tab_empty4 = 0 \<and>
   HASH_Insert False True tab_empty4 5 1 = Inr (False, tab_empty4\<lparr>hRefCount := 1\<rparr>) \<and>
   HASH_Retrieve (tab_empty4\<lparr>hRefCount := 1\<rparr>) 5 = Inl RefCountBug"
  by (simp add: op_eval_defs hash_eval_defs tab_empty4_def)

section \<open>Destruction of a table that still holds entries\<close>

text \<open>C5. \<open>HASH_Delete\<close> on the table \<open>HASH_Create(4)\<close> becomes after the inserts of
  keys 0 and 9, which share the chain of slot 0 (\<open>uCount = 2\<close>): the leak loop indexes
  the slot array by entry number. Its first round frees the head of slot 0; its
  second round writes the tombstone through \<open>ppBucketTable[1]\<close>, which is \<open>NULL\<close>.
  The bucket in the middle of the chain is never reached.\<close>

theorem HASH_Delete_indexes_slots_by_entry_number:
  "HASH_Insert True True tab_empty4 0 7 = Inr (True, tab_0) \<and>
   HASH_Insert True True tab_0 9 8 = Inr (True, tab_0_9) \<and>
   all_buckets tab_0_9 = [\<lparr>ui32Sig = BUCKET_SIG, v = 8, k = [9]\<rparr>,
                          \<lparr>ui32Sig = BUCKET_SIG, v = 7, k = [0]\<rparr>] \<and>
   uCount tab_0_9 = 2 \<and>
   Delete_loop (ppBucketTable tab_0_9) 0 1 = Inr [\<lparr>ui32Sig = BUCKET_FREE, v = 8, k = [9]\<rparr>] \<and>
   HASH_Delete tab_0_9 = Inl NullDeref"
  by (simp add: op_eval_defs hash_eval_defs all_buckets_def fixture_defs Delete_loop_eval)

section \<open>Iteration\<close>

lemma status_at_0: "status_at cb s (b # bs) 0 = fst (cb s (hd (k b)) (v b))"
  by (simp add: status_at_def)

lemma status_at_Suc:
  "status_at cb s (b # bs) (Suc n) = status_at cb (snd (cb s (hd (k b)) (v b))) bs n"
  by (simp add: status_at_def)

lemma Iterate_chain_append:
  "Iterate_chain cb s (xs @ ys) =
     (case Iterate_chain cb s xs of Inl r \<Rightarrow> Inl r | Inr s' \<Rightarrow> Iterate_chain cb s' ys)"
  by (induction xs arbitrary: s) (auto split: prod.splits)

lemma Iterate_slots_concat: "Iterate_slots cb s slots = Iterate_chain cb s (concat slots)"
  by (induction slots arbitrary: s) (auto simp: Iterate_chain_append split: sum.splits)

lemma Iterate_chain_all_ok:
  assumes "\<forall>n < length bs. status_at cb s bs n = PVRSRV_OK"
  shows "Iterate_chain cb s bs = Inr (callback_state cb s bs)"
  using assms
proof (induction bs arbitrary: s)
  case Nil
  show ?case by simp
next
  case (Cons b bs)
  obtain e s1 where step: "cb s (hd (k b)) (v b) = (e, s1)"
    by (cases "cb s (hd (k b)) (v b)")
  have "status_at cb s (b # bs) 0 = PVRSRV_OK"
    using Cons.prems by blast
  then have e: "e = PVRSRV_OK"
    by (simp add: status_at_0 step)
  have "\<forall>n < length bs. status_at cb s1 bs n = PVRSRV_OK"
  proof (intro allI impI)
    fix n assume "n < length bs"
    then have "status_at cb s (b # bs) (Suc n) = PVRSRV_OK"
      using Cons.prems by simp
    then show "status_at cb s1 bs n = PVRSRV_OK"
      by (simp add: status_at_Suc step)
  qed
  then have "Iterate_chain cb s1 bs = Inr (callback_state cb s1 bs)"
    by (rule Cons.IH)
  then show ?case
    by (simp add: step e)
qed

lemma Iterate_chain_stops:
  assumes "n < length bs"
      and "\<forall>m < n. status_at cb s bs m = PVRSRV_OK"
      and "status_at cb s bs n \<noteq> PVRSRV_OK"
  shows "Iterate_chain cb s bs =
           Inl (status_at cb s bs n, callback_state cb s (take (Suc n) bs))"
  using assms
proof (induction bs arbitrary: s n)
  case Nil
  then show ?case by simp
next
  case (Cons b bs)
  obtain e s1 where step: "cb s (hd (k b)) (v b) = (e, s1)"
    by (cases "cb s (hd (k b)) (v b)")
  show ?case
  proof (cases n)
    case 0
    then show ?thesis
      using Cons.prems(3) by (simp add: status_at_0 step)
  next
    case (Suc n')
    have "status_at cb s (b # bs) 0 = PVRSRV_OK"
      using Cons.prems(2) Suc by blast
    then have e: "e = PVRSRV_OK"
      by (simp add: status_at_0 step)
    have lt: "n' < length bs"
      using Cons.prems(1) Suc by simp
    have ok: "\<forall>m < n'. status_at cb s1 bs m = PVRSRV_OK"
    proof (intro allI impI)
      fix m assume "m < n'"
      then have "status_at cb s (b # bs) (Suc m) = PVRSRV_OK"
        using Cons.prems(2) Suc by simp
      then show "status_at cb s1 bs m = PVRSRV_OK"
        by (simp add: status_at_Suc step)
    qed
    have bad: "status_at cb s1 bs n' \<noteq> PVRSRV_OK"
      using Cons.prems(3) Suc by (simp add: status_at_Suc step)
    have "Iterate_chain cb s1 bs =
            Inl (status_at cb s1 bs n', callback_state cb s1 (take (Suc n') bs))"
      using lt ok bad by (rule Cons.IH)
    then show ?thesis
      by (simp add: step e Suc status_at_Suc)
  qed
qed

lemma guard_round_trip: "hRefCount t = 0 \<Longrightarrow> dec_ref (inc_ref t) = Inr t"
  by (cases t) (simp add: dec_ref_def inc_ref_def)

lemma HASH_Iterate_flat:
  assumes "length (ppBucketTable t) = unat (uSize t)" and "hRefCount t = 0"
  shows "HASH_Iterate t cb s =
           (case Iterate_chain cb s (all_buckets t) of
              Inl (e, s') \<Rightarrow> Inr (e, s', t)
            | Inr s' \<Rightarrow> Inr (PVRSRV_OK, s', t))"
proof -
  have "ppBucketTable (inc_ref t) = ppBucketTable t" "uSize (inc_ref t) = uSize t"
    by (simp_all add: inc_ref_def)
  then show ?thesis
    using assms(1) guard_round_trip [OF assms(2)]
    by (simp add: HASH_Iterate_def Let_def Iterate_slots_concat all_buckets_def
             split: sum.splits prod.splits)
qed

text \<open>C9. On a table whose slot array has \<open>uSize\<close> entries, whose guard is idle
  and whose \<open>uCount\<close> is the number of its live entries, \<open>HASH_Iterate\<close> calls the
  visitor on the live entries one after the other, slot by slot and head first.
  If every call returns \<open>PVRSRV_OK\<close>, the visitor has been called once per live
  entry, \<open>uCount\<close> times in all, and the result is \<open>PVRSRV_OK\<close>. If call number
  \<open>n\<close> is the first not to return \<open>PVRSRV_OK\<close>, the visitor has been called on the
  first \<open>n + 1\<close> entries only and its status is the result.\<close>

theorem HASH_Iterate_visits:
  assumes "length (ppBucketTable t) = unat (uSize t)"
      and "hRefCount t = 0"
      and "unat (uCount t) = length (all_buckets t)"
  shows "((\<forall>n < length (all_buckets t). status_at cb s (all_buckets t) n = PVRSRV_OK) \<longrightarrow>
            HASH_Iterate t cb s = Inr (PVRSRV_OK, callback_state cb s (all_buckets t), t) \<and>
            length (all_buckets t) = unat (uCount t)) \<and>
         (\<forall>n < length (all_buckets t).
            (\<forall>m < n. status_at cb s (all_buckets t) m = PVRSRV_OK) \<and>
            status_at cb s (all_buckets t) n \<noteq> PVRSRV_OK \<longrightarrow>
            HASH_Iterate t cb s =
              Inr (status_at cb s (all_buckets t) n,
                   callback_state cb s (take (Suc n) (all_buckets t)), t))"
proof (intro conjI impI allI)
  assume "\<forall>n < length (all_buckets t). status_at cb s (all_buckets t) n = PVRSRV_OK"
  then have "Iterate_chain cb s (all_buckets t) = Inr (callback_state cb s (all_buckets t))"
    by (rule Iterate_chain_all_ok)
  then show "HASH_Iterate t cb s = Inr (PVRSRV_OK, callback_state cb s (all_buckets t), t)"
    by (simp add: HASH_Iterate_flat [OF assms(1,2)])
next
  show "length (all_buckets t) = unat (uCount t)"
    by (simp add: assms(3))
next
  fix n
  assume n: "n < length (all_buckets t)"
     and h: "(\<forall>m < n. status_at cb s (all_buckets t) m = PVRSRV_OK) \<and>
             status_at cb s (all_buckets t) n \<noteq> PVRSRV_OK"
  have "Iterate_chain cb s (all_buckets t) =
          Inl (status_at cb s (all_buckets t) n,
               callback_state cb s (take (Suc n) (all_buckets t)))"
    using n h by (intro Iterate_chain_stops) simp_all
  then show "HASH_Iterate t cb s =
               Inr (status_at cb s (all_buckets t) n,
                    callback_state cb s (take (Suc n) (all_buckets t)), t)"
    by (simp add: HASH_Iterate_flat [OF assms(1,2)])
qed

text \<open>A visitor that counts its calls, on the table holding keys 9 and 0: two calls
  when it always succeeds; one call, and its status returned, when it rejects the
  first entry (value 8).\<close>

theorem HASH_Iterate_visits_witness:
  "length (ppBucketTable tab_0_9) = unat (uSize tab_0_9) \<and>
   hRefCount tab_0_9 = 0 \<and>
   unat (uCount tab_0_9) = length (all_buckets tab_0_9) \<and>
   HASH_Iterate tab_0_9 (\<lambda>n key val. (PVRSRV_OK, Suc n)) 0 = Inr (PVRSRV_OK, 2, tab_0_9) \<and>
   HASH_Iterate tab_0_9
       (\<lambda>n key val. (if val = 8 then PVRSRV_ERROR_CODE 3 else PVRSRV_OK, Suc n)) 0
     = Inr (PVRSRV_ERROR_CODE 3, 1, tab_0_9)"
proof -
  have shape: "length (ppBucketTable tab_0_9) = unat (uSize tab_0_9)"
    by (simp add: tab_0_9_def tab_empty4_def)
  have idle: "hRefCount tab_0_9 = 0"
    by (simp add: tab_0_9_def tab_empty4_def)
  have all: "all_buckets tab_0_9 = [\<lparr>ui32Sig = BUCKET_SIG, v = 8, k = [9]\<rparr>,
                                     \<lparr>ui32Sig = BUCKET_SIG, v = 7, k = [0]\<rparr>]"
    by (simp add: all_buckets_def tab_0_9_def tab_empty4_def)
  have cnt: "unat (uCount tab_0_9) = length (all_buckets tab_0_9)"
    by (simp add: all) (simp add: tab_0_9_def tab_empty4_def)
  show ?thesis
    using HASH_Iterate_visits [OF shape idle cnt, of "\<lambda>n key val. (PVRSRV_OK, Suc n)" 0]
          HASH_Iterate_visits [OF shape idle cnt,
            of "\<lambda>n key val. (if val = 8 then PVRSRV_ERROR_CODE 3 else PVRSRV_OK, Suc n)" 0]
    by (simp add: shape idle cnt all status_at_def All_less_Suc)
qed

section \<open>Insert and remove, step by step\<close>

lemma Rehash_chain_zero:
  "Rehash_chain t c tbl 0 = (if c = [] then Inr tbl else Inl DivByZero)"
  by (cases c) (simp_all add: ChainInsert_def KEY_TO_INDEX_zero)

lemma Rehash_slots_zero:
  "Rehash_slots t slots tbl 0 = (if concat slots = [] then Inr tbl else Inl DivByZero)"
  by (induction slots) (simp_all add: Rehash_chain_zero)

lemma Resize_cases:
  assumes "table_shape t" and "Resize a t n = Inr (r, t')"
  shows "t' = t \<or> (n \<noteq> 0 \<and> n \<noteq> uSize t \<and> a \<and> t' = rehashed t n) \<or>
         (n = 0 \<and> all_buckets t = [] \<and> t' = t\<lparr>ppBucketTable := [], uSize := 0\<rparr>)"
proof (cases "n = uSize t \<or> \<not> a")
  case True
  then show ?thesis using assms(2) by (auto simp: Resize_def split: if_splits)
next
  case False
  show ?thesis
  proof (cases "n = 0")
    case True
    then show ?thesis
      using assms False
      by (auto simp: Resize_def Rehash_def Rehash_slots_zero table_shape_def all_buckets_def
               split: if_splits)
  next
    case n: False
    have "Resize True t n = Inr (True, rehashed t n)"
      using Resize_grow_Inr [of n t] n False assms(1)
      by (simp add: table_shape_def rehashed_def all_buckets_def)
    then show ?thesis
      using assms(2) False n by simp
  qed
qed

lemma same_strategy_refl: "same_strategy t t"
  by (simp add: same_strategy_def)

lemma rehashed_fields:
  "uCount (rehashed t n) = uCount t" "uMinimumSize (rehashed t n) = uMinimumSize t"
  "hRefCount (rehashed t n) = hRefCount t" "same_strategy t (rehashed t n)"
  "uSize (rehashed t n) = n"
  by (simp_all add: rehashed_def same_strategy_def)

lemma rehashed_shape: "table_shape (rehashed t n)"
  by (simp add: rehashed_def table_shape_def length_distribute)

lemma rehashed_mset:
  "n \<noteq> 0 \<Longrightarrow> mset (all_buckets (rehashed t n)) = mset (all_buckets t)"
  using mset_concat_distribute [of n "replicate (unat n) []" t "all_buckets t"]
  by (simp add: rehashed_def all_buckets_def concat_replicate_Nil)

lemma rehashed_chain:
  "j < unat n \<Longrightarrow>
   ppBucketTable (rehashed t n) ! j = rev (filter (\<lambda>b. slot_of t n (k b) = j) (all_buckets t))"
  by (simp add: rehashed_def nth_distribute)

lemma Resize_fields:
  assumes "table_shape t" and "Resize a t n = Inr (r, t')"
  shows "uCount t' = uCount t \<and> uMinimumSize t' = uMinimumSize t \<and>
         hRefCount t' = hRefCount t \<and> same_strategy t t' \<and> table_shape t' \<and>
         mset (all_buckets t') = mset (all_buckets t)"
proof -
  consider "t' = t"
    | "n \<noteq> 0" "t' = rehashed t n"
    | "all_buckets t = []" "t' = t\<lparr>ppBucketTable := [], uSize := 0\<rparr>"
    using Resize_cases [OF assms] by blast
  then show ?thesis
  proof cases
    case 1
    then show ?thesis using assms(1) by (simp add: same_strategy_refl)
  next
    case 2
    then show ?thesis by (simp add: rehashed_fields rehashed_shape rehashed_mset)
  next
    case 3
    then show ?thesis
      by (simp add: same_strategy_def table_shape_def all_buckets_def)
  qed
qed

lemma inc_ref_fields [simp]:
  "uSize (inc_ref t) = uSize t" "uCount (inc_ref t) = uCount t"
  "uMinimumSize (inc_ref t) = uMinimumSize t" "ppBucketTable (inc_ref t) = ppBucketTable t"
  "hRefCount (inc_ref t) = hRefCount t + 1" "all_buckets (inc_ref t) = all_buckets t"
  "same_strategy t (inc_ref t)" "table_shape (inc_ref t) = table_shape t"
  by (simp_all add: inc_ref_def all_buckets_def same_strategy_def table_shape_def)

lemma same_strategy_Retrieve_chain:
  "same_strategy t t' \<Longrightarrow> Retrieve_chain t' key c = Retrieve_chain t key c"
  by (induction c) (simp_all add: same_strategy_KEY_COMPARE)

lemma same_strategy_Remove_chain:
  "same_strategy t t' \<Longrightarrow> Remove_chain t' key c = Remove_chain t key c"
  by (induction c) (simp_all add: same_strategy_KEY_COMPARE)

lemma same_strategy_distribute:
  "same_strategy t t' \<Longrightarrow> distribute t' = distribute t"
  by (simp add: distribute_def same_strategy_slot_of fun_eq_iff)

lemma dec_ref_Inr: "dec_ref t = Inr t' \<longleftrightarrow> hRefCount t = 1 \<and> t' = t\<lparr>hRefCount := 0\<rparr>"
  by (auto simp: dec_ref_def)

lemma dec_ref_inc_ref: "dec_ref (inc_ref t) = (if hRefCount t = 0 then Inr t else Inl RefCountBug)"
  by (cases t) (simp add: dec_ref_def inc_ref_def)

lemma inserted_inc_ref: "inserted (inc_ref t) key val = inc_ref (inserted t key val)"
  by (simp add: inserted_def inc_ref_def slot_of_def)

lemma rehashed_inc_ref: "rehashed (inc_ref t) n = inc_ref (rehashed t n)"
  by (simp add: rehashed_def inc_ref_def distribute_def slot_of_def all_buckets_def)

lemma removed_inc_ref: "removed (inc_ref t) key = inc_ref (removed t key)"
  using same_strategy_Remove_chain [of t "inc_ref t" key] same_strategy_slot_of [of t "inc_ref t"]
  by (simp add: removed_def split: option.splits) (simp add: inc_ref_def)

lemma inserted_fields:
  "uSize (inserted t key val) = uSize t" "uCount (inserted t key val) = uCount t + 1"
  "uMinimumSize (inserted t key val) = uMinimumSize t"
  "hRefCount (inserted t key val) = hRefCount t" "same_strategy t (inserted t key val)"
  "table_shape (inserted t key val) = table_shape t"
  by (simp_all add: inserted_def same_strategy_def table_shape_def)

lemma inserted_mset:
  assumes "slot_of t (uSize t) key < length (ppBucketTable t)"
  shows "mset (all_buckets (inserted t key val))
           = add_mset \<lparr>ui32Sig = BUCKET_SIG, v = val, k = key\<rparr> (mset (all_buckets t))"
  using mset_concat_update [OF assms] by (simp add: inserted_def all_buckets_def)

lemma push_bit_1_neq:
  fixes n :: IMG_UINT32
  assumes "n \<noteq> 0"
  shows "push_bit 1 n \<noteq> n"
proof
  assume "push_bit 1 n = n"
  then have "n + n = n" by (simp add: push_bit_eq_mult)
  then show False using assms by simp
qed

lemma Resize_rehashed:
  assumes "n \<noteq> 0" and "n \<noteq> uSize t" and "table_shape t"
  shows "Resize True t n = Inr (True, rehashed t n)"
  using Resize_grow_Inr [of n t] assms
  by (simp add: table_shape_def rehashed_def all_buckets_def)

lemma insert_eq:
  assumes "table_shape t" and "uSize t \<noteq> 0"
  shows "HASH_Insert_Extended True at t key val =
           (if hRefCount t \<noteq> 0 then
              (if grow_due t \<and> at \<and> push_bit 1 (uSize t) = 0 then Inl DivByZero
               else Inl RefCountBug)
            else if grow_due t \<and> at then
              (if push_bit 1 (uSize t) = 0 then Inl DivByZero
               else Inr (True, rehashed (inserted t key val) (push_bit 1 (uSize t))))
            else Inr (True, inserted t key val))"
proof -
  let ?i = "slot_of t (uSize t) key"
  let ?nb = "\<lparr>ui32Sig = BUCKET_SIG, v = val, k = key\<rparr>"
  let ?t2 = "inc_ref (inserted t key val)"
  have lt: "?i < length (ppBucketTable t)"
    using slot_of_less [OF assms(2)] assms(1) by (simp add: table_shape_def)
  have ci: "ChainInsert (inc_ref t) ?nb (ppBucketTable t) (uSize t)
              = Inr ((ppBucketTable t)[?i := ?nb # ppBucketTable t ! ?i])"
    using ChainInsert_Inr [of "uSize t" "inc_ref t" ?nb "ppBucketTable t"] assms(2) lt
    by (simp add: same_strategy_slot_of [of t "inc_ref t"])
  have t2: "(inc_ref t)\<lparr>ppBucketTable := (ppBucketTable t)[?i := ?nb # ppBucketTable t ! ?i],
                         uCount := uCount t + 1\<rparr> = ?t2"
    by (simp add: inserted_def inc_ref_def)
  have step: "HASH_Insert_Extended True at t key val =
                (case (if grow_due t then Resize at ?t2 (push_bit 1 (uSize t))
                       else Inr (True, ?t2)) of
                   Inl e \<Rightarrow> Inl e
                 | Inr (_, t3) \<Rightarrow>
                     (case dec_ref t3 of Inl e \<Rightarrow> Inl e | Inr t4 \<Rightarrow> Inr (True, t4)))"
    by (simp add: HASH_Insert_Extended_def Let_def ci t2 grow_due_def inserted_fields)
  have shape2: "table_shape ?t2"
    using assms(1) by (simp add: inserted_fields)
  have ne: "all_buckets ?t2 \<noteq> []"
    using inserted_mset [OF lt, of val] by (metis inc_ref_fields(6) mset.simps(1) empty_not_add_mset)
  have rs_True: "push_bit 1 (uSize t) \<noteq> 0 \<Longrightarrow>
                   Resize True ?t2 (push_bit 1 (uSize t))
                     = Inr (True, inc_ref (rehashed (inserted t key val) (push_bit 1 (uSize t))))"
    using Resize_rehashed [of "push_bit 1 (uSize t)" ?t2] push_bit_1_neq [OF assms(2)] shape2
    by (simp add: inserted_fields rehashed_inc_ref)
  have rs_zero: "push_bit 1 (uSize t) = 0 \<Longrightarrow>
                   Resize True ?t2 (push_bit 1 (uSize t)) = Inl DivByZero"
    using ne shape2 assms(2)
    by (simp add: Resize_def Rehash_def Rehash_slots_zero table_shape_def all_buckets_def
                  inserted_fields)
  have rs_False: "Resize False ?t2 (push_bit 1 (uSize t)) = Inr (False, ?t2)"
    using push_bit_1_neq [OF assms(2)] by (simp add: Resize_def inserted_fields)
  show ?thesis
  proof (cases "grow_due t")
    case False
    then show ?thesis
      using step by (simp add: dec_ref_inc_ref inserted_fields)
  next
    case True
    show ?thesis
    proof (cases at)
      case False
      then show ?thesis
        using True step rs_False by (simp add: dec_ref_inc_ref inserted_fields)
    next
      case at: True
      show ?thesis
      proof (cases "push_bit 1 (uSize t) = 0")
        case True
        then show ?thesis
          using \<open>grow_due t\<close> at rs_zero step by simp
      next
        case False
        then show ?thesis
          using \<open>grow_due t\<close> at rs_True step
          by (simp add: dec_ref_inc_ref rehashed_fields inserted_fields)
      qed
    qed
  qed
qed

lemma insert_size0:
  "uSize t = 0 \<Longrightarrow> HASH_Insert_Extended True at t key val = Inl DivByZero"
  by (simp add: HASH_Insert_Extended_def ChainInsert_def KEY_TO_INDEX_def)

lemma remove_size0:
  "uSize t = 0 \<Longrightarrow> HASH_Remove_Extended at t key = Inl DivByZero"
  by (simp add: HASH_Remove_Extended_def KEY_TO_INDEX_def)

lemma drop_bit_1_less:
  fixes n :: IMG_UINT32
  assumes "n \<noteq> 0"
  shows "drop_bit 1 n < n"
proof -
  have "unat n \<noteq> 0" using assms by (simp add: unat_eq_0)
  then have "unat n div 2 < unat n" by simp
  then show ?thesis
    by (simp add: word_less_nat_alt drop_bit_eq_div unat_div)
qed

lemma shrunk_size_facts:
  assumes "uMinimumSize t \<noteq> 0"
  shows "shrunk_size t \<noteq> 0" and "uMinimumSize t \<le> shrunk_size t"
    and "uSize t \<noteq> 0 \<Longrightarrow> uMinimumSize t < uSize t \<Longrightarrow> shrunk_size t < uSize t"
proof -
  show "uMinimumSize t \<le> shrunk_size t"
    by (auto simp: shrunk_size_def PRIVATE_MAX_def intro: order_less_imp_le)
  then show "shrunk_size t \<noteq> 0"
    using assms by (metis word_le_0_iff)
  show "uSize t \<noteq> 0 \<Longrightarrow> uMinimumSize t < uSize t \<Longrightarrow> shrunk_size t < uSize t"
    using drop_bit_1_less [of "uSize t"] by (simp add: shrunk_size_def PRIVATE_MAX_def)
qed

lemma removed_fields:
  "uSize (removed t key) = uSize t" "uMinimumSize (removed t key) = uMinimumSize t"
  "hRefCount (removed t key) = hRefCount t" "same_strategy t (removed t key)"
  "table_shape (removed t key) = table_shape t"
  by (simp_all add: removed_def same_strategy_def table_shape_def split: option.splits)

lemma removed_Some:
  assumes "Remove_chain t key (ppBucketTable t ! slot_of t (uSize t) key) = Some (b, c')"
  shows "removed t key =
           t\<lparr>ppBucketTable := (ppBucketTable t)[slot_of t (uSize t) key := c'],
             uCount := uCount t - 1\<rparr>"
    and "uCount (removed t key) = uCount t - 1"
  using assms by (simp_all add: removed_def)

lemma remove_eq:
  assumes "table_shape t" and "uSize t \<noteq> 0" and "uMinimumSize t \<noteq> 0"
  shows "HASH_Remove_Extended at t key =
           (if hRefCount t \<noteq> 0 then Inl RefCountBug
            else case Remove_chain t key (ppBucketTable t ! slot_of t (uSize t) key) of
              None \<Rightarrow> Inr (0, t)
            | Some (b, c') \<Rightarrow>
                Inr (v b, if shrink_due t \<and> at then rehashed (removed t key) (shrunk_size t)
                          else removed t key))"
proof -
  let ?i = "slot_of t (uSize t) key"
  obtain i where i: "KEY_TO_INDEX (inc_ref t) key (uSize t) = Inr i" "unat i = ?i"
    using KEY_TO_INDEX_Inr [OF assms(2), of "inc_ref t" key]
    by (auto simp: same_strategy_slot_of [of t "inc_ref t"])
  have lt: "?i < length (ppBucketTable t)"
    using slot_of_less [OF assms(2)] assms(1) by (simp add: table_shape_def)
  have rc: "Remove_chain (inc_ref t) key = Remove_chain t key"
    by (simp add: same_strategy_Remove_chain fun_eq_iff)
  show ?thesis
  proof (cases "Remove_chain t key (ppBucketTable t ! ?i)")
    case None
    then show ?thesis
      using lt by (simp add: HASH_Remove_Extended_def Let_def i rc dec_ref_inc_ref)
  next
    case (Some r)
    obtain b c' where r: "r = (b, c')" by (cases r)
    let ?t2 = "inc_ref (removed t key)"
    have t2: "(inc_ref t)\<lparr>ppBucketTable := (ppBucketTable t)[?i := c'],
                           uCount := uCount t - 1\<rparr> = ?t2"
      using Some r by (simp add: removed_def inc_ref_def)
    have cnt: "uCount (removed t key) = uCount t - 1"
      using Some r by (simp add: removed_def)
    have step: "HASH_Remove_Extended at t key =
                  (case (if shrink_due t then Resize at ?t2 (shrunk_size t)
                         else Inr (True, ?t2)) of
                     Inl e \<Rightarrow> Inl e
                   | Inr (_, t3) \<Rightarrow>
                       (case dec_ref t3 of Inl e \<Rightarrow> Inl e | Inr t4 \<Rightarrow> Inr (v b, t4)))"
      using lt Some r
      by (simp add: HASH_Remove_Extended_def Let_def i rc t2 shrink_due_def shrunk_size_def
                    removed_fields cnt)
    have shape2: "table_shape ?t2"
      using assms(1) by (simp add: removed_fields)
    have rs_True: "shrink_due t \<Longrightarrow>
                     Resize True ?t2 (shrunk_size t)
                       = Inr (True, inc_ref (rehashed (removed t key) (shrunk_size t)))"
      using Resize_rehashed [of "shrunk_size t" ?t2] shrunk_size_facts [OF assms(3)] assms(2) shape2
      by (simp add: removed_fields rehashed_inc_ref shrink_due_def)
    have rs_False: "shrink_due t \<Longrightarrow> Resize False ?t2 (shrunk_size t) = Inr (False, ?t2)"
      using shrunk_size_facts [OF assms(3)] assms(2)
      by (simp add: Resize_def removed_fields shrink_due_def)
    show ?thesis
    proof (cases "shrink_due t")
      case False
      then show ?thesis
        using step Some r by (simp add: dec_ref_inc_ref removed_fields)
    next
      case True
      show ?thesis
      proof (cases at)
        case False
        then show ?thesis
          using True step rs_False Some r by (simp add: dec_ref_inc_ref removed_fields)
      next
        case at: True
        then show ?thesis
          using True step rs_True Some r
          by (simp add: dec_ref_inc_ref rehashed_fields removed_fields)
      qed
    qed
  qed
qed

section \<open>The entry count\<close>

lemma mset_concat_replace:
  assumes "i < length tbl"
  shows "mset (concat (tbl[i := c])) + mset (tbl ! i) = mset (concat tbl) + mset c"
proof -
  have "mset (concat (tbl[i := c])) + mset (tbl ! i)
          = mset (concat (take i tbl @ c # drop (Suc i) tbl)) + mset (tbl ! i)"
    by (simp only: upd_conv_take_nth_drop [OF assms])
  also have "\<dots> = mset (concat (take i tbl @ tbl ! i # drop (Suc i) tbl)) + mset c"
    by simp
  also have "\<dots> = mset (concat tbl) + mset c"
    by (simp only: id_take_nth_drop [OF assms, symmetric])
  finally show ?thesis .
qed

lemma Remove_chain_Some:
  assumes "Remove_chain t key c = Some (b, c')"
  shows "KEY_COMPARE t (k b) key \<and> mset c = add_mset b (mset c')"
  using assms
  by (induction c arbitrary: c') (auto split: if_splits option.splits)

lemma Remove_chain_None:
  "Remove_chain t key c = None \<longleftrightarrow> (\<forall>b \<in> set c. \<not> KEY_COMPARE t (k b) key)"
  by (induction c) (auto split: option.splits)

lemma removed_mset:
  assumes "slot_of t (uSize t) key < length (ppBucketTable t)"
      and "Remove_chain t key (ppBucketTable t ! slot_of t (uSize t) key) = Some (b, c')"
  shows "add_mset b (mset (all_buckets (removed t key))) = mset (all_buckets t)"
    and "KEY_COMPARE t (k b) key"
proof -
  have m: "mset (ppBucketTable t ! slot_of t (uSize t) key) = add_mset b (mset c')"
    and "KEY_COMPARE t (k b) key"
    using Remove_chain_Some [OF assms(2)] by simp_all
  then show "KEY_COMPARE t (k b) key" by simp
  show "add_mset b (mset (all_buckets (removed t key))) = mset (all_buckets t)"
    using mset_concat_replace [OF assms(1), of c'] m
    by (simp add: removed_Some [OF assms(2)] all_buckets_def)
qed

lemma table_inv_inc_ref: "table_inv (inc_ref t) = table_inv t"
  by (simp add: table_inv_def count_consistent_def)

lemma table_inv_rehashed:
  assumes "table_inv t" and "n \<noteq> 0"
  shows "table_inv (rehashed t n)"
proof -
  have "length (all_buckets (rehashed t n)) = length (all_buckets t)"
    using rehashed_mset [OF assms(2), of t] by (rule mset_eq_length)
  then show ?thesis
    using assms(1) by (simp add: table_inv_def count_consistent_def rehashed_fields rehashed_shape)
qed

lemma table_inv_inserted:
  assumes "table_inv t" and "uSize t \<noteq> 0"
  shows "table_inv (inserted t key val)"
proof -
  have lt: "slot_of t (uSize t) key < length (ppBucketTable t)"
    using slot_of_less [OF assms(2)] assms(1) by (simp add: table_inv_def table_shape_def)
  have "length (all_buckets (inserted t key val)) = Suc (length (all_buckets t))"
    using inserted_mset [OF lt, of val] by (metis mset_eq_length size_add_mset size_mset)
  then show ?thesis
    using assms(1) by (simp add: table_inv_def count_consistent_def inserted_fields)
qed

lemma table_inv_removed:
  assumes "table_inv t" and "uSize t \<noteq> 0"
  shows "table_inv (removed t key)"
proof (cases "Remove_chain t key (ppBucketTable t ! slot_of t (uSize t) key)")
  case None
  then show ?thesis using assms(1) by (simp add: removed_def)
next
  case (Some r)
  obtain b c' where r: "r = (b, c')" by (cases r)
  have lt: "slot_of t (uSize t) key < length (ppBucketTable t)"
    using slot_of_less [OF assms(2)] assms(1) by (simp add: table_inv_def table_shape_def)
  have "length (all_buckets t) = Suc (length (all_buckets (removed t key)))"
    using removed_mset(1) [OF lt, of b c'] Some r by (metis size_add_mset size_mset)
  then have "uCount t - 1 = of_nat (length (all_buckets (removed t key)))"
    using assms(1) by (simp add: table_inv_def count_consistent_def)
  then show ?thesis
    using assms(1) Some r
    by (simp add: table_inv_def count_consistent_def removed_fields removed_Some(2) [of t key b c'])
qed

lemma table_inv_insert:
  assumes "table_inv t" and "HASH_Insert_Extended ab at t key val = Inr (r, t')"
  shows "table_inv t'"
proof (cases ab)
  case False
  then have "t' = inc_ref t"
    using assms(2) by (simp add: HASH_Insert_Extended_def Let_def)
  then show ?thesis using assms(1) by (simp add: table_inv_inc_ref)
next
  case True
  have size: "uSize t \<noteq> 0"
    using assms(2) True insert_size0 [of t at key val] by auto
  have shape: "table_shape t"
    using assms(1) by (simp add: table_inv_def)
  have "t' = inserted t key val \<or>
        (push_bit 1 (uSize t) \<noteq> 0 \<and> t' = rehashed (inserted t key val) (push_bit 1 (uSize t)))"
    using assms(2) True insert_eq [OF shape size, of at key val]
    by (auto split: if_splits)
  then show ?thesis
    using table_inv_inserted [OF assms(1) size, of key val] table_inv_rehashed
    by blast
qed

lemma table_inv_remove:
  assumes "table_inv t" and "HASH_Remove_Extended at t key = Inr (r, t')"
  shows "table_inv t'"
proof -
  have size: "uSize t \<noteq> 0"
    using assms(2) remove_size0 [of t at key] by auto
  have shape: "table_shape t" and min: "uMinimumSize t \<noteq> 0"
    using assms(1) by (simp_all add: table_inv_def)
  have "t' = t \<or> t' = removed t key \<or> t' = rehashed (removed t key) (shrunk_size t)"
    using assms(2) remove_eq [OF shape size min, of at key]
    by (auto split: if_splits option.splits)
  then show ?thesis
    using assms(1) table_inv_removed [OF assms(1) size, of key]
          table_inv_rehashed [of "removed t key" "shrunk_size t"] shrunk_size_facts(1) [OF min]
    by blast
qed

lemma table_inv_run_op:
  assumes "table_inv t" and "run_op x t = Inr t'"
  shows "table_inv t'"
  using assms
  by (cases x) (auto split: sum.splits dest: table_inv_insert table_inv_remove)

lemma table_inv_run_ops:
  assumes "table_inv t" and "run_ops xs t = Inr t'"
  shows "table_inv t'"
  using assms
proof (induction xs arbitrary: t)
  case Nil
  then show ?case by simp
next
  case (Cons x xs)
  then show ?case
    by (auto split: sum.splits dest: table_inv_run_op)
qed

lemma table_inv_create:
  assumes "HASH_Create_Extended a1 a2 len ks hf cf = Some t"
  shows "table_inv t"
  using assms
  by (auto simp: HASH_Create_Extended_def table_inv_def table_shape_def count_consistent_def
                 all_buckets_def concat_replicate_Nil
           split: option.splits if_splits)

text \<open>C6, as stated, against the code: after \<open>HASH_Create(4)\<close> and two inserts of
  the key 5, \<open>uCount\<close> is 2 while the table holds one distinct key. Insert counts
  entries and never looks for the key.\<close>

theorem uCount_counts_duplicates:
  "HASH_Create True True 4 = Some tab_empty4 \<and>
   run_ops [Insert [5] 1 True True, Insert [5] 2 True True] tab_empty4 = Inr tab_5_5 \<and>
   uCount tab_5_5 = 2 \<and>
   card (set (map k (all_buckets tab_5_5))) = 1"
  by (simp add: op_eval_defs hash_eval_defs fixture_defs all_buckets_def replicate_eval
                sizeof_uintptr_t_def)

text \<open>C6, amended. After \<open>HASH_Create_Extended\<close> and any sequence of inserts and
  removes that runs to its end, whatever the allocator does, \<open>uCount\<close> is the number
  of live entries on the chains (modulo \<open>2^32\<close>, the width of the field), a key
  that has two entries counting twice. When the live entries have pairwise
  different keys, that is the number of distinct keys in the table.\<close>

theorem uCount_is_number_of_live_entries:
  assumes "HASH_Create_Extended alloc_hash alloc_table uInitialLen uKeySz pfnHash pfnComp = Some t0"
      and "run_ops xs t0 = Inr t"
  shows "uCount t = of_nat (length (all_buckets t)) \<and>
         (distinct (map k (all_buckets t)) \<longrightarrow>
            uCount t = of_nat (card (set (map k (all_buckets t)))))"
proof -
  have "uCount t = of_nat (length (all_buckets t))"
    using table_inv_run_ops [OF table_inv_create [OF assms(1)] assms(2)]
    by (simp add: table_inv_def count_consistent_def)
  moreover have "card (set (map k (all_buckets t))) = length (all_buckets t)"
    if "distinct (map k (all_buckets t))"
    using distinct_card [OF that] by simp
  ultimately show ?thesis by simp
qed

text \<open>A run with an insert of a second key, a remove that finds it and a remove
  that finds nothing: two entries are left, with different keys.\<close>

theorem uCount_is_number_of_live_entries_witness:
  "HASH_Create_Extended True True 4 8 (Some HASH_Func_Default) (Some HASH_Key_Comp_Default)
     = Some tab_empty4 \<and>
   run_ops [Insert [0] 7 True True, Insert [5] 1 True True, Remove [5] True,
            Insert [9] 8 True True, Remove [6] True] tab_empty4
     = Inr tab_0_9 \<and>
   distinct (map k (all_buckets tab_0_9)) \<and>
   uCount tab_0_9 = of_nat (length (all_buckets tab_0_9)) \<and>
   uCount tab_0_9 = of_nat (card (set (map k (all_buckets tab_0_9)))) \<and>
   uCount tab_0_9 = 2"
proof -
  have c: "HASH_Create_Extended True True 4 8 (Some HASH_Func_Default) (Some HASH_Key_Comp_Default)
             = Some tab_empty4"
    by (simp add: op_eval_defs fixture_defs replicate_eval)
  have r: "run_ops [Insert [0] 7 True True, Insert [5] 1 True True, Remove [5] True,
                    Insert [9] 8 True True, Remove [6] True] tab_empty4
             = Inr tab_0_9"
    by (simp add: op_eval_defs hash_eval_defs fixture_defs)
  have d: "distinct (map k (all_buckets tab_0_9))"
    by (simp add: all_buckets_def fixture_defs)
  show ?thesis
    using uCount_is_number_of_live_entries [OF c r] c r d
    by (simp add: fixture_defs)
qed

section \<open>Lookup\<close>

lemma Retrieve_chain_None:
  "Retrieve_chain t key c = None \<longleftrightarrow> (\<forall>b \<in> set c. \<not> KEY_COMPARE t (k b) key)"
  by (induction c) auto

lemma Retrieve_chain_Some:
  "Retrieve_chain t key c = Some b \<Longrightarrow> b \<in> set c \<and> KEY_COMPARE t (k b) key"
  by (induction c) (auto split: if_splits)

lemma Remove_chain_first_match:
  "Remove_chain t key c = Some (b, c') \<Longrightarrow> Retrieve_chain t key c = Some b"
  by (induction c arbitrary: c') (auto split: if_splits option.splits)

lemma retrieve_eq:
  assumes "table_shape t" and "uSize t \<noteq> 0"
  shows "HASH_Retrieve_Extended t key =
           (if hRefCount t \<noteq> 0 then Inl RefCountBug
            else Inr (case Retrieve_chain t key (ppBucketTable t ! slot_of t (uSize t) key) of
                        None \<Rightarrow> 0 | Some b \<Rightarrow> v b, t))"
proof -
  obtain i where i: "KEY_TO_INDEX (inc_ref t) key (uSize t) = Inr i"
                    "unat i = slot_of t (uSize t) key"
    using KEY_TO_INDEX_Inr [OF assms(2), of "inc_ref t" key]
    by (auto simp: same_strategy_slot_of [of t "inc_ref t"])
  have lt: "slot_of t (uSize t) key < length (ppBucketTable t)"
    using slot_of_less [OF assms(2)] assms(1) by (simp add: table_shape_def)
  have rc: "Retrieve_chain (inc_ref t) key = Retrieve_chain t key"
    by (simp add: same_strategy_Retrieve_chain fun_eq_iff)
  show ?thesis
    using lt
    by (simp add: HASH_Retrieve_Extended_def Let_def i rc dec_ref_inc_ref split: option.splits)
qed

lemma chain_subset:
  assumes "i < length (ppBucketTable t)"
  shows "set (ppBucketTable t ! i) \<subseteq> set (all_buckets t)"
proof
  fix b
  assume "b \<in> set (ppBucketTable t ! i)"
  with assms have "\<exists>c \<in> set (ppBucketTable t). b \<in> set c"
    using nth_mem by blast
  then show "b \<in> set (all_buckets t)"
    by (simp add: all_buckets_def)
qed

text \<open>A lookup answers with the value of some live entry that matches the key,
  as soon as one such entry sits on the chain of the key's slot.\<close>

lemma retrieve_hit:
  assumes "table_shape t" and "uSize t \<noteq> 0" and "hRefCount t = 0"
      and "b0 \<in> set (ppBucketTable t ! slot_of t (uSize t) key)"
      and "KEY_COMPARE t (k b0) key"
  shows "\<exists>b \<in> set (all_buckets t).
           KEY_COMPARE t (k b) key \<and> HASH_Retrieve_Extended t key = Inr (v b, t)"
proof -
  let ?c = "ppBucketTable t ! slot_of t (uSize t) key"
  have "Retrieve_chain t key ?c \<noteq> None"
    using assms(4,5) by (auto simp: Retrieve_chain_None)
  then obtain b where b: "Retrieve_chain t key ?c = Some b" by blast
  have lt: "slot_of t (uSize t) key < length (ppBucketTable t)"
    using slot_of_less [OF assms(2)] assms(1) by (simp add: table_shape_def)
  have "b \<in> set (all_buckets t)" "KEY_COMPARE t (k b) key"
    using Retrieve_chain_Some [OF b] chain_subset [OF lt] by auto
  moreover have "HASH_Retrieve_Extended t key = Inr (v b, t)"
    using retrieve_eq [OF assms(1,2), of key] assms(3) b by simp
  ultimately show ?thesis by blast
qed

lemma retrieve_miss:
  assumes "table_shape t" and "uSize t \<noteq> 0" and "hRefCount t = 0"
      and "matching t key = []"
  shows "HASH_Retrieve_Extended t key = Inr (0, t)"
proof -
  have lt: "slot_of t (uSize t) key < length (ppBucketTable t)"
    using slot_of_less [OF assms(2)] assms(1) by (simp add: table_shape_def)
  have "\<forall>b \<in> set (all_buckets t). \<not> KEY_COMPARE t (k b) key"
    using assms(4) by (simp add: matching_def filter_empty_conv)
  then have "Retrieve_chain t key (ppBucketTable t ! slot_of t (uSize t) key) = None"
    using chain_subset [OF lt] by (auto simp: Retrieve_chain_None)
  then show ?thesis
    using retrieve_eq [OF assms(1,2), of key] assms(3) by simp
qed

lemma rehashed_chain_mem:
  assumes "n \<noteq> 0" and "b \<in> set (all_buckets t)"
  shows "b \<in> set (ppBucketTable (rehashed t n) ! slot_of t n (k b))"
proof -
  have "slot_of t n (k b) < unat n"
    by (rule slot_of_less [OF assms(1)])
  then show ?thesis
    using rehashed_chain [of "slot_of t n (k b)" n t] assms(2) by simp
qed

lemma retrieve_rehashed:
  assumes "n \<noteq> 0" and "hRefCount t = 0"
      and "b0 \<in> set (all_buckets t)" and "KEY_COMPARE t (k b0) key"
      and "slot_of t n (k b0) = slot_of t n key"
  shows "\<exists>b \<in> set (all_buckets t).
           KEY_COMPARE t (k b) key \<and>
           HASH_Retrieve_Extended (rehashed t n) key = Inr (v b, rehashed t n)"
proof -
  let ?t' = "rehashed t n"
  have sl: "slot_of ?t' (uSize ?t') key = slot_of t n key"
    by (simp add: rehashed_fields same_strategy_slot_of [OF rehashed_fields(4)])
  have kc: "KEY_COMPARE ?t' = KEY_COMPARE t"
    by (simp add: same_strategy_KEY_COMPARE [OF rehashed_fields(4)])
  have mem: "b0 \<in> set (ppBucketTable ?t' ! slot_of ?t' (uSize ?t') key)"
    using rehashed_chain_mem [OF assms(1,3)] assms(5) sl by simp
  have "\<exists>b \<in> set (all_buckets ?t').
           KEY_COMPARE ?t' (k b) key \<and> HASH_Retrieve_Extended ?t' key = Inr (v b, ?t')"
    using mem assms(1,2,4)
    by (intro retrieve_hit) (simp_all add: rehashed_shape rehashed_fields kc)
  moreover have "set (all_buckets ?t') = set (all_buckets t)"
    using rehashed_mset [OF assms(1), of t] by (rule mset_eq_setD)
  ultimately show ?thesis by (simp add: kc)
qed

lemma matching_cong:
  assumes "mset (all_buckets t') = mset (all_buckets t)" and "same_strategy t t'"
  shows "mset (matching t' key) = mset (matching t key)"
  using assms
  by (simp add: matching_def same_strategy_KEY_COMPARE)

lemma finds_Remove_chain:
  "finds t key \<longleftrightarrow>
     Remove_chain t key (ppBucketTable t ! slot_of t (uSize t) key) \<noteq> None"
  by (simp add: finds_def Remove_chain_None)

lemma absent_not_finds:
  assumes "table_shape t" and "uSize t \<noteq> 0" and "matching t key = []"
  shows "\<not> finds t key"
proof -
  have lt: "slot_of t (uSize t) key < length (ppBucketTable t)"
    using slot_of_less [OF assms(2)] assms(1) by (simp add: table_shape_def)
  have "\<forall>b \<in> set (all_buckets t). \<not> KEY_COMPARE t (k b) key"
    using assms(3) by (simp add: matching_def filter_empty_conv)
  then show ?thesis
    using chain_subset [OF lt] by (auto simp: finds_def)
qed

lemma removed_matching:
  assumes "table_shape t" and "uSize t \<noteq> 0" and "finds t key"
  shows "length (matching t key) = Suc (length (matching (removed t key) key))"
proof -
  have lt: "slot_of t (uSize t) key < length (ppBucketTable t)"
    using slot_of_less [OF assms(2)] assms(1) by (simp add: table_shape_def)
  obtain b c' where rc:
    "Remove_chain t key (ppBucketTable t ! slot_of t (uSize t) key) = Some (b, c')"
    using assms(3) by (auto simp: finds_Remove_chain)
  have "mset (all_buckets t) = add_mset b (mset (all_buckets (removed t key)))"
    and kb: "KEY_COMPARE t (k b) key"
    using removed_mset [OF lt rc] by simp_all
  then have "mset (matching t key) = add_mset b (mset (matching (removed t key) key))"
    by (simp add: matching_def same_strategy_KEY_COMPARE [OF removed_fields(4)])
  then show ?thesis
    by (metis size_add_mset size_mset)
qed

section \<open>Remove, then retrieve\<close>

text \<open>C7, as stated, against the code: the key 5 has two live entries (values 2 and
  1, the newer first). Remove finds the key and returns 2; the retrieve that follows
  returns 1, the value of the older entry, not the sentinel.\<close>

theorem remove_uncovers_older_entry:
  "run_ops [Insert [5] 1 True True, Insert [5] 2 True True] tab_empty4 = Inr tab_5_5 \<and>
   finds tab_5_5 [5] \<and>
   HASH_Remove True tab_5_5 5 = Inr (2, tab_5) \<and>
   HASH_Retrieve tab_5 5 = Inr (1, tab_5)"
  by (simp add: op_eval_defs hash_eval_defs fixture_defs derived_eval_defs shrink_due_def)

text \<open>C7, amended. On a table that meets the data model (a slot array of \<open>uSize\<close>
  entries, sizes not zero) with the guard idle: a remove that finds its key
  returns, and \<open>uCount\<close> has decreased by exactly one; the retrieve that follows
  returns the sentinel 0 when the key had a single live entry. A remove that finds
  no match returns the sentinel 0 and leaves the table, its count included, as it
  was; this is the case of every key absent from the table.\<close>

theorem remove_then_retrieve:
  assumes "table_shape t" and "uSize t \<noteq> 0" and "uMinimumSize t \<noteq> 0" and "hRefCount t = 0"
  shows "(finds t key \<longrightarrow>
            (\<exists>val t'. HASH_Remove_Extended at t key = Inr (val, t') \<and>
                       uCount t' = uCount t - 1 \<and>
                       (length (matching t key) = 1 \<longrightarrow>
                          HASH_Retrieve_Extended t' key = Inr (0, t')))) \<and>
         (\<not> finds t key \<longrightarrow> HASH_Remove_Extended at t key = Inr (0, t)) \<and>
         (matching t key = [] \<longrightarrow> \<not> finds t key)"
proof (intro conjI impI)
  assume f: "finds t key"
  then obtain b c' where rc:
    "Remove_chain t key (ppBucketTable t ! slot_of t (uSize t) key) = Some (b, c')"
    by (auto simp: finds_Remove_chain)
  define t' where "t' = (if shrink_due t \<and> at then rehashed (removed t key) (shrunk_size t)
                         else removed t key)"
  have rm: "HASH_Remove_Extended at t key = Inr (v b, t')"
    using remove_eq [OF assms(1-3), of at key] assms(4) rc by (simp add: t'_def)
  have cnt: "uCount t' = uCount t - 1"
    by (simp add: t'_def rehashed_fields removed_Some(2) [OF rc])
  have shape: "table_shape t'" and guard: "hRefCount t' = 0" and size: "uSize t' \<noteq> 0"
    and strat: "same_strategy (removed t key) t'"
    using assms(1,2,4) shrunk_size_facts(1) [OF assms(3)]
    by (simp_all add: t'_def rehashed_fields rehashed_shape removed_fields same_strategy_refl)
  have ms: "mset (all_buckets t') = mset (all_buckets (removed t key))"
    using shrunk_size_facts(1) [OF assms(3)] by (simp add: t'_def rehashed_mset)
  have "HASH_Retrieve_Extended t' key = Inr (0, t')" if one: "length (matching t key) = 1"
  proof -
    have "matching (removed t key) key = []"
      using removed_matching [OF assms(1,2) f] one by simp
    then have "mset (matching t' key) = {#}"
      using matching_cong [OF ms strat, of key] by simp
    then have "matching t' key = []" by simp
    then show ?thesis
      using shape size guard by (intro retrieve_miss)
  qed
  then show "\<exists>val t'. HASH_Remove_Extended at t key = Inr (val, t') \<and>
                      uCount t' = uCount t - 1 \<and>
                      (length (matching t key) = 1 \<longrightarrow>
                         HASH_Retrieve_Extended t' key = Inr (0, t'))"
    using rm cnt by blast
next
  assume "\<not> finds t key"
  then have "Remove_chain t key (ppBucketTable t ! slot_of t (uSize t) key) = None"
    by (simp add: finds_def Remove_chain_None)
  then show "HASH_Remove_Extended at t key = Inr (0, t)"
    using remove_eq [OF assms(1-3), of at key] assms(4) by simp
next
  assume "matching t key = []"
  then show "\<not> finds t key"
    using assms(1,2) by (intro absent_not_finds)
qed

theorem remove_then_retrieve_witness:
  "table_shape tab_0_9 \<and> uSize tab_0_9 \<noteq> 0 \<and> uMinimumSize tab_0_9 \<noteq> 0 \<and>
   hRefCount tab_0_9 = 0 \<and>
   finds tab_0_9 [9] \<and> length (matching tab_0_9 [9]) = 1 \<and>
   HASH_Remove_Extended True tab_0_9 [9] = Inr (8, tab_0) \<and>
   uCount tab_0 = uCount tab_0_9 - 1 \<and>
   HASH_Retrieve_Extended tab_0 [9] = Inr (0, tab_0) \<and>
   \<not> finds tab_0_9 [5] \<and> matching tab_0_9 [5] = [] \<and>
   HASH_Remove_Extended True tab_0_9 [5] = Inr (0, tab_0_9)"
proof -
  have h: "table_shape tab_0_9" "uSize tab_0_9 \<noteq> 0" "uMinimumSize tab_0_9 \<noteq> 0"
          "hRefCount tab_0_9 = 0"
    by (simp_all add: fixture_defs table_shape_def)
  have f: "finds tab_0_9 [9]" "length (matching tab_0_9 [9]) = 1"
          "\<not> finds tab_0_9 [5]" "matching tab_0_9 [5] = []"
    by (simp_all add: fixture_defs derived_eval_defs hash_eval_defs)
  have e: "HASH_Remove_Extended True tab_0_9 [9] = Inr (8, tab_0)"
          "HASH_Remove_Extended True tab_0_9 [5] = Inr (0, tab_0_9)"
    by (simp_all add: op_eval_defs hash_eval_defs fixture_defs)
  show ?thesis
    using remove_then_retrieve [OF h, of "[9]" True] remove_then_retrieve [OF h, of "[5]" True]
          h f e
    by (simp add: fixture_defs)
qed

section \<open>The table after an insert\<close>

lemma inserted_set:
  assumes "slot_of t (uSize t) key < length (ppBucketTable t)"
  shows "set (all_buckets (inserted t key val))
           = insert \<lparr>ui32Sig = BUCKET_SIG, v = val, k = key\<rparr> (set (all_buckets t))"
  using inserted_mset [OF assms, of val]
  by (metis mset_eq_setD set_mset_add_mset_insert set_mset_mset)

lemma inserted_chain:
  assumes "slot_of t (uSize t) key < length (ppBucketTable t)"
  shows "ppBucketTable (inserted t key val) ! slot_of t (uSize t) key
           = \<lparr>ui32Sig = BUCKET_SIG, v = val, k = key\<rparr> # ppBucketTable t ! slot_of t (uSize t) key"
  using assms by (simp add: inserted_def)

lemma retrieve_inserted:
  assumes "table_shape t" and "uSize t \<noteq> 0" and "hRefCount t = 0" and "KEY_COMPARE t key key"
  shows "HASH_Retrieve_Extended (inserted t key val) key = Inr (val, inserted t key val)"
proof -
  let ?t' = "inserted t key val"
  have lt: "slot_of t (uSize t) key < length (ppBucketTable t)"
    using slot_of_less [OF assms(2)] assms(1) by (simp add: table_shape_def)
  have sl: "slot_of ?t' (uSize ?t') key = slot_of t (uSize t) key"
    by (simp add: inserted_fields same_strategy_slot_of [OF inserted_fields(5)])
  have kc: "KEY_COMPARE ?t' = KEY_COMPARE t"
    by (simp add: same_strategy_KEY_COMPARE [OF inserted_fields(5)])
  have "Retrieve_chain ?t' key (ppBucketTable ?t' ! slot_of ?t' (uSize ?t') key)
          = Some \<lparr>ui32Sig = BUCKET_SIG, v = val, k = key\<rparr>"
    using assms(4) by (simp add: sl inserted_chain [OF lt] kc)
  then show ?thesis
    using retrieve_eq [of ?t' key] assms(1-3) by (simp add: inserted_fields)
qed

lemma retrieve_rehashed_inserted:
  assumes "table_shape t" and "uSize t \<noteq> 0" and "hRefCount t = 0" and "KEY_COMPARE t key key"
      and "n \<noteq> 0"
      and "\<forall>b \<in> set (all_buckets t). KEY_COMPARE t (k b) key \<longrightarrow> v b = val"
  shows "HASH_Retrieve_Extended (rehashed (inserted t key val) n) key
           = Inr (val, rehashed (inserted t key val) n)"
proof -
  let ?nb = "\<lparr>ui32Sig = BUCKET_SIG, v = val, k = key\<rparr>"
  let ?ti = "inserted t key val"
  have lt: "slot_of t (uSize t) key < length (ppBucketTable t)"
    using slot_of_less [OF assms(2)] assms(1) by (simp add: table_shape_def)
  have kc: "KEY_COMPARE ?ti = KEY_COMPARE t"
    by (simp add: same_strategy_KEY_COMPARE [OF inserted_fields(5)])
  have all: "set (all_buckets ?ti) = insert ?nb (set (all_buckets t))"
    by (rule inserted_set [OF lt])
  have "\<exists>b \<in> set (all_buckets ?ti).
          KEY_COMPARE ?ti (k b) key \<and>
          HASH_Retrieve_Extended (rehashed ?ti n) key = Inr (v b, rehashed ?ti n)"
  proof (rule retrieve_rehashed)
    show "n \<noteq> 0" by (rule assms(5))
    show "hRefCount ?ti = 0" using assms(3) by (simp add: inserted_fields)
    show "?nb \<in> set (all_buckets ?ti)" using all by simp
    show "KEY_COMPARE ?ti (k ?nb) key" using assms(4) by (simp add: kc)
    show "slot_of ?ti n (k ?nb) = slot_of ?ti n key" by simp
  qed
  then obtain b where b: "b \<in> set (all_buckets ?ti)" "KEY_COMPARE ?ti (k b) key"
    "HASH_Retrieve_Extended (rehashed ?ti n) key = Inr (v b, rehashed ?ti n)"
    by blast
  have "v b = val"
    using b(1,2) all assms(6) by (auto simp: kc)
  then show ?thesis using b(3) by simp
qed

lemma matching_inserted:
  assumes "table_shape t" and "uSize t \<noteq> 0" and "KEY_COMPARE t key key"
  shows "length (matching (inserted t key val) key) = Suc (length (matching t key))"
proof -
  have lt: "slot_of t (uSize t) key < length (ppBucketTable t)"
    using slot_of_less [OF assms(2)] assms(1) by (simp add: table_shape_def)
  have "mset (matching (inserted t key val) key)
          = add_mset \<lparr>ui32Sig = BUCKET_SIG, v = val, k = key\<rparr> (mset (matching t key))"
    using inserted_mset [OF lt, of val] assms(3)
    by (simp add: matching_def same_strategy_KEY_COMPARE [OF inserted_fields(5)])
  then show ?thesis
    by (metis size_add_mset size_mset)
qed

lemma matching_rehashed:
  assumes "n \<noteq> 0"
  shows "length (matching (rehashed t n) key) = length (matching t key)"
  using matching_cong [OF rehashed_mset [OF assms, of t] rehashed_fields(4), of key]
  by (rule mset_eq_length)

lemma unat_double:
  fixes x :: IMG_UINT32
  assumes "2 * unat x < 2 ^ 32"
  shows "unat (push_bit 1 x) = 2 * unat x"
  using assms by (simp add: push_bit_eq_mult unat_word_ariths)

lemma unat_quadruple:
  fixes x :: IMG_UINT32
  assumes "4 * unat x < 2 ^ 32"
  shows "unat (push_bit 2 x) = 4 * unat x"
  using assms by (simp add: push_bit_eq_mult unat_word_ariths)

lemma unat_succ:
  fixes x :: IMG_UINT32
  assumes "unat x + 1 < 2 ^ 32"
  shows "unat (x + 1) = unat x + 1"
  using assms by (simp add: unat_word_ariths)

lemma grow_due_nat:
  assumes "2 * (unat (uCount t) + 1) < 2 ^ 32"
      and "unat (uSize t) < 2 * (unat (uCount t) + 1)"
  shows "grow_due t"
proof -
  have "unat (uCount t + 1) = unat (uCount t) + 1"
    using assms(1) by (intro unat_succ) simp
  then have "unat (push_bit 1 (uCount t + 1)) = 2 * (unat (uCount t) + 1)"
    using assms(1) unat_double [of "uCount t + 1"] by simp
  then show ?thesis
    using assms(2) by (simp add: grow_due_def word_less_nat_alt)
qed

lemma shrink_due_nat:
  assumes "4 * unat (uCount t - 1) < unat (uSize t)" and "uMinimumSize t < uSize t"
  shows "shrink_due t"
proof -
  have "unat (uSize t) < 2 ^ 32"
    using unsigned_less [of "uSize t"] by simp
  then have "unat (push_bit 2 (uCount t - 1)) = 4 * unat (uCount t - 1)"
    using assms(1) by (intro unat_quadruple) simp
  then show ?thesis
    using assms by (simp add: shrink_due_def word_less_nat_alt)
qed

lemma unat_shrunk_size:
  "unat (shrunk_size t) = max (unat (uSize t) div 2) (unat (uMinimumSize t))"
  by (auto simp: shrunk_size_def PRIVATE_MAX_def word_less_nat_alt drop_bit_eq_div unat_div)

section \<open>Insert, then retrieve\<close>

text \<open>C1, as stated, against the code: on the table \<open>HASH_Create(1)\<close> returns, key 5
  is inserted with value 1 and again with value 2. The second insert succeeds and
  grows the table from 2 to 4 slots; the rehash walks the old chain from its head
  and prepends each bucket to the new chain, so the older entry ends up in front.
  The retrieve that follows the insert of value 2 returns 1.\<close>

theorem retrieve_after_growing_insert_returns_older_value:
  "HASH_Create True True 1 = Some tab_empty1 \<and>
   HASH_Insert True True tab_empty1 5 1 = Inr (True, tab1_5) \<and>
   HASH_Insert True True tab1_5 5 2 = Inr (True, tab1_5_5) \<and>
   HASH_Retrieve tab1_5_5 5 = Inr (1, tab1_5_5)"
  by (simp add: op_eval_defs hash_eval_defs fixture_defs sizeof_uintptr_t_def replicate_eval)

text \<open>C1, amended. On a table whose slot array has \<open>uSize\<close> entries, and for a key the
  comparison function accepts as equal to itself: if insert of \<open>(key, val)\<close> succeeds
  and either did not resize the table or the key had no live entry before, the
  retrieve that follows returns \<open>val\<close> (also when \<open>val\<close> is 0).\<close>

theorem insert_then_retrieve:
  assumes "table_shape t"
      and "HASH_Insert_Extended alloc_bucket alloc_table t key val = Inr (True, t')"
      and "KEY_COMPARE t key key"
      and "uSize t' = uSize t \<or> matching t key = []"
  shows "HASH_Retrieve_Extended t' key = Inr (val, t')"
proof -
  have ab: alloc_bucket
    using assms(2) by (cases alloc_bucket) (simp_all add: HASH_Insert_Extended_def Let_def)
  have size: "uSize t \<noteq> 0"
    using assms(2) ab insert_size0 [of t alloc_table key val] by auto
  have guard: "hRefCount t = 0"
    using assms(2) ab insert_eq [OF assms(1) size, of alloc_table key val]
    by (auto split: if_splits)
  consider "t' = inserted t key val"
    | "push_bit 1 (uSize t) \<noteq> 0" "t' = rehashed (inserted t key val) (push_bit 1 (uSize t))"
    using assms(2) ab guard insert_eq [OF assms(1) size, of alloc_table key val]
    by (auto split: if_splits)
  then show ?thesis
  proof cases
    case 1
    then show ?thesis
      using retrieve_inserted [OF assms(1) size guard assms(3)] by simp
  next
    case 2
    have "uSize t' \<noteq> uSize t"
      using 2(2) push_bit_1_neq [OF size] by (simp add: rehashed_fields)
    then have "matching t key = []"
      using assms(4) by simp
    then have "\<forall>b \<in> set (all_buckets t). KEY_COMPARE t (k b) key \<longrightarrow> v b = val"
      by (simp add: matching_def filter_empty_conv)
    then show ?thesis
      using retrieve_rehashed_inserted [OF assms(1) size guard assms(3) 2(1)] 2(2) by simp
  qed
qed

theorem insert_then_retrieve_witness:
  "table_shape tab_empty4 \<and>
   HASH_Insert_Extended True True tab_empty4 [5] 1 = Inr (True, tab_5) \<and>
   KEY_COMPARE tab_empty4 [5] [5] \<and> uSize tab_5 = uSize tab_empty4 \<and>
   HASH_Retrieve_Extended tab_5 [5] = Inr (1, tab_5) \<and>
   table_shape tab2_3 \<and>
   HASH_Insert_Extended True True tab2_3 [6] 9 = Inr (True, tab2_3_6) \<and>
   KEY_COMPARE tab2_3 [6] [6] \<and> uSize tab2_3_6 \<noteq> uSize tab2_3 \<and> matching tab2_3 [6] = [] \<and>
   HASH_Retrieve_Extended tab2_3_6 [6] = Inr (9, tab2_3_6)"
proof -
  have a: "table_shape tab_empty4"
          "HASH_Insert_Extended True True tab_empty4 [5] 1 = Inr (True, tab_5)"
          "KEY_COMPARE tab_empty4 [5] [5]"
          "uSize tab_5 = uSize tab_empty4 \<or> matching tab_empty4 [5] = []"
    by (simp_all add: op_eval_defs hash_eval_defs fixture_defs table_shape_def)
  have b: "table_shape tab2_3"
          "HASH_Insert_Extended True True tab2_3 [6] 9 = Inr (True, tab2_3_6)"
          "KEY_COMPARE tab2_3 [6] [6]"
          "uSize tab2_3_6 = uSize tab2_3 \<or> matching tab2_3 [6] = []"
    by (simp_all add: op_eval_defs hash_eval_defs fixture_defs derived_eval_defs replicate_eval)
  have c: "uSize tab_5 = uSize tab_empty4" "uSize tab2_3_6 \<noteq> uSize tab2_3"
          "matching tab2_3 [6] = []"
    by (simp_all add: hash_eval_defs fixture_defs derived_eval_defs)
  show ?thesis
    using insert_then_retrieve [OF a] insert_then_retrieve [OF b] a(1-3) b(1-3) c
    by simp
qed

text \<open>C10, as stated, against the code: the table of 2 slots holds key 3 with value
  1. The insert of \<open>(3, 2)\<close> succeeds, adds a second entry (\<open>uCount\<close> is 2) and grows
  the table to 4 slots; the rehash puts the older entry in front, and retrieve
  returns 1, not the value inserted last.\<close>

theorem second_insert_with_growth_keeps_first_value:
  "HASH_Retrieve tab2_3 3 = Inr (1, tab2_3) \<and>
   HASH_Insert True True tab2_3 3 2 = Inr (True, tab2_3_3) \<and>
   uCount tab2_3_3 = 2 \<and>
   HASH_Retrieve tab2_3_3 3 = Inr (1, tab2_3_3)"
  by (simp add: op_eval_defs hash_eval_defs fixture_defs replicate_eval)

text \<open>C10, amended. Insert never looks for the key. On a table that meets the data
  model, with the guard idle and a size whose double does not wrap to 0, an insert
  whose bucket allocation succeeds returns success, also when the key is already
  present; \<open>uCount\<close> goes up by one and the key has one more live entry. When that
  insert does not resize the table, the new bucket is the head of its chain and
  retrieve returns the value just inserted.\<close>

theorem insert_never_checks_for_the_key:
  assumes "table_shape t" and "uSize t \<noteq> 0" and "hRefCount t = 0"
      and "push_bit 1 (uSize t) \<noteq> 0"
      and "KEY_COMPARE t key key"
  shows "\<exists>t'. HASH_Insert_Extended True alloc_table t key val = Inr (True, t') \<and>
              uCount t' = uCount t + 1 \<and>
              length (matching t' key) = Suc (length (matching t key)) \<and>
              (uSize t' = uSize t \<longrightarrow> HASH_Retrieve_Extended t' key = Inr (val, t'))"
proof (cases "grow_due t \<and> alloc_table")
  case True
  let ?t' = "rehashed (inserted t key val) (push_bit 1 (uSize t))"
  have "HASH_Insert_Extended True alloc_table t key val = Inr (True, ?t')"
    using insert_eq [OF assms(1,2), of alloc_table key val] assms(3,4) True by simp
  moreover have "uCount ?t' = uCount t + 1"
    by (simp add: rehashed_fields inserted_fields)
  moreover have "length (matching ?t' key) = Suc (length (matching t key))"
    using matching_rehashed [OF assms(4)] matching_inserted [OF assms(1,2,5)] by simp
  moreover have "uSize ?t' \<noteq> uSize t"
    using push_bit_1_neq [OF assms(2)] by (simp add: rehashed_fields)
  ultimately show ?thesis by blast
next
  case False
  let ?t' = "inserted t key val"
  have "HASH_Insert_Extended True alloc_table t key val = Inr (True, ?t')"
    using insert_eq [OF assms(1,2), of alloc_table key val] assms(3) False by auto
  moreover have "uCount ?t' = uCount t + 1"
    by (simp add: inserted_fields)
  moreover have "length (matching ?t' key) = Suc (length (matching t key))"
    by (rule matching_inserted [OF assms(1,2,5)])
  moreover have "HASH_Retrieve_Extended ?t' key = Inr (val, ?t')"
    by (rule retrieve_inserted [OF assms(1,2,3,5)])
  ultimately show ?thesis by blast
qed

theorem insert_never_checks_for_the_key_witness:
  "table_shape tab_5 \<and> uSize tab_5 \<noteq> 0 \<and> hRefCount tab_5 = 0 \<and>
   push_bit 1 (uSize tab_5) \<noteq> 0 \<and> KEY_COMPARE tab_5 [5] [5] \<and>
   matching tab_5 [5] = [\<lparr>ui32Sig = BUCKET_SIG, v = 1, k = [5]\<rparr>] \<and>
   HASH_Insert_Extended True True tab_5 [5] 2 = Inr (True, tab_5_5) \<and>
   uCount tab_5_5 = uCount tab_5 + 1 \<and>
   length (matching tab_5_5 [5]) = Suc (length (matching tab_5 [5])) \<and>
   uSize tab_5_5 = uSize tab_5 \<and>
   HASH_Retrieve_Extended tab_5_5 [5] = Inr (2, tab_5_5)"
proof -
  have h: "table_shape tab_5" "uSize tab_5 \<noteq> 0" "hRefCount tab_5 = 0"
          "push_bit 1 (uSize tab_5) \<noteq> 0" "KEY_COMPARE tab_5 [5] [5]"
    by (simp_all add: hash_eval_defs fixture_defs table_shape_def)
  have e: "HASH_Insert_Extended True True tab_5 [5] 2 = Inr (True, tab_5_5)"
    by (simp add: op_eval_defs hash_eval_defs fixture_defs)
  have m: "matching tab_5 [5] = [\<lparr>ui32Sig = BUCKET_SIG, v = 1, k = [5]\<rparr>]"
          "uSize tab_5_5 = uSize tab_5"
    by (simp_all add: hash_eval_defs fixture_defs derived_eval_defs)
  show ?thesis
    using insert_never_checks_for_the_key [OF h, of True 2] h e m
    by simp
qed

section \<open>Growing\<close>

text \<open>C2, as stated, against the code: key 5 has the entries 2 (newer) and 1 in a
  table of 4 slots, and retrieve returns 2. The insert of key 6 makes \<open>uCount\<close> 3,
  so the table grows to 8 slots; afterwards retrieve of key 5 returns 1: the value
  retrieved for a previously inserted key has changed.\<close>

theorem growth_changes_value_of_duplicated_key:
  "HASH_Retrieve tab_5_5 5 = Inr (2, tab_5_5) \<and>
   HASH_Insert True True tab_5_5 6 9 = Inr (True, tab8_5_5_6) \<and>
   uSize tab8_5_5_6 = 8 \<and>
   HASH_Retrieve tab8_5_5_6 5 = Inr (1, tab8_5_5_6)"
  by (simp add: op_eval_defs hash_eval_defs fixture_defs replicate_eval)

text \<open>C2, amended. On a table meeting the data model with the guard idle, of size
  \<open>S < 2^31\<close> and with \<open>count + 1 < 2^31\<close>: an insert whose bucket allocation
  succeeds and that makes \<open>count * 2 > S\<close> returns success; the table has \<open>2 * S\<close>
  slots when the slot array could be allocated and \<open>S\<close> slots when not, and its
  live entries are those it had plus the new one. After the successful growth,
  for every entry \<open>b0\<close> inserted before whose key compares equal to itself, a
  retrieve of that key hits a live entry matching it and returns that entry's
  value; it returns the value of \<open>b0\<close> itself when all live entries that match the
  key carry that value (so for every key with a single entry).\<close>

theorem insert_grows_table:
  assumes "table_shape t" and "uSize t \<noteq> 0" and "hRefCount t = 0"
      and "2 * unat (uSize t) < 2 ^ 32"
      and "2 * (unat (uCount t) + 1) < 2 ^ 32"
      and "unat (uSize t) < 2 * (unat (uCount t) + 1)"
  shows "\<exists>t'. HASH_Insert_Extended True alloc_table t key val = Inr (True, t') \<and>
              unat (uSize t') = (if alloc_table then 2 * unat (uSize t) else unat (uSize t)) \<and>
              mset (all_buckets t')
                = add_mset \<lparr>ui32Sig = BUCKET_SIG, v = val, k = key\<rparr> (mset (all_buckets t)) \<and>
              (alloc_table \<longrightarrow>
                 (\<forall>b0 \<in> set (all_buckets t).
                    KEY_COMPARE t (k b0) (k b0) \<longrightarrow>
                    (\<exists>b \<in> set (all_buckets t').
                       KEY_COMPARE t (k b) (k b0) \<and>
                       HASH_Retrieve_Extended t' (k b0) = Inr (v b, t')) \<and>
                    ((\<forall>b \<in> set (all_buckets t'). KEY_COMPARE t (k b) (k b0) \<longrightarrow> v b = v b0)
                       \<longrightarrow> HASH_Retrieve_Extended t' (k b0) = Inr (v b0, t'))))"
proof -
  let ?n = "push_bit 1 (uSize t)"
  let ?ti = "inserted t key val"
  let ?nb = "\<lparr>ui32Sig = BUCKET_SIG, v = val, k = key\<rparr>"
  have grow: "grow_due t"
    by (rule grow_due_nat [OF assms(5,6)])
  have n: "unat ?n = 2 * unat (uSize t)"
    by (rule unat_double [OF assms(4)])
  have "unat (uSize t) \<noteq> 0"
    using assms(2) by (simp add: unat_eq_0)
  then have n0: "?n \<noteq> 0"
    using n by (metis mult_eq_0_iff unat_0 zero_neq_numeral)
  have lt: "slot_of t (uSize t) key < length (ppBucketTable t)"
    using slot_of_less [OF assms(2)] assms(1) by (simp add: table_shape_def)
  have kc: "KEY_COMPARE ?ti = KEY_COMPARE t"
    by (simp add: same_strategy_KEY_COMPARE [OF inserted_fields(5)])
  have ms_i: "mset (all_buckets ?ti) = add_mset ?nb (mset (all_buckets t))"
    by (rule inserted_mset [OF lt])
  show ?thesis
  proof (cases alloc_table)
    case False
    have ins: "HASH_Insert_Extended True alloc_table t key val = Inr (True, ?ti)"
      using insert_eq [OF assms(1,2), of alloc_table key val] assms(3) False by simp
    have sz: "unat (uSize ?ti) = (if alloc_table then 2 * unat (uSize t) else unat (uSize t))"
      using False by (simp add: inserted_fields)
    have vac: "alloc_table \<longrightarrow> P" for P
      using False by simp
    show ?thesis
      by (rule exI [of _ ?ti], intro conjI ins sz ms_i vac)
  next
    case True
    let ?t' = "rehashed ?ti ?n"
    have ins: "HASH_Insert_Extended True alloc_table t key val = Inr (True, ?t')"
      using insert_eq [OF assms(1,2), of alloc_table key val] assms(3) True grow n0 by simp
    have sz: "unat (uSize ?t') = (if alloc_table then 2 * unat (uSize t) else unat (uSize t))"
      using True n by (simp add: rehashed_fields)
    have ms: "mset (all_buckets ?t') = add_mset ?nb (mset (all_buckets t))"
      using rehashed_mset [OF n0, of ?ti] ms_i by simp
    have set': "set (all_buckets ?t') = set (all_buckets ?ti)"
      using rehashed_mset [OF n0, of ?ti] by (rule mset_eq_setD)
    have hit: "\<exists>b \<in> set (all_buckets ?t').
                 KEY_COMPARE t (k b) (k b0) \<and>
                 HASH_Retrieve_Extended ?t' (k b0) = Inr (v b, ?t')"
      if b0: "b0 \<in> set (all_buckets t)" and refl: "KEY_COMPARE t (k b0) (k b0)" for b0
    proof -
      have "\<exists>b \<in> set (all_buckets ?ti).
              KEY_COMPARE ?ti (k b) (k b0) \<and>
              HASH_Retrieve_Extended ?t' (k b0) = Inr (v b, ?t')"
      proof (rule retrieve_rehashed)
        show "?n \<noteq> 0" by (rule n0)
        show "hRefCount ?ti = 0" using assms(3) by (simp add: inserted_fields)
        show "b0 \<in> set (all_buckets ?ti)" using b0 by (simp add: inserted_set [OF lt])
        show "KEY_COMPARE ?ti (k b0) (k b0)" using refl by (simp add: kc)
        show "slot_of ?ti ?n (k b0) = slot_of ?ti ?n (k b0)" by simp
      qed
      then show ?thesis
        unfolding set' kc .
    qed
    have own: "HASH_Retrieve_Extended ?t' (k b0) = Inr (v b0, ?t')"
      if b0: "b0 \<in> set (all_buckets t)" and refl: "KEY_COMPARE t (k b0) (k b0)"
        and same: "\<forall>b \<in> set (all_buckets ?t'). KEY_COMPARE t (k b) (k b0) \<longrightarrow> v b = v b0"
      for b0
    proof -
      obtain b where b: "b \<in> set (all_buckets ?t')" "KEY_COMPARE t (k b) (k b0)"
        and r: "HASH_Retrieve_Extended ?t' (k b0) = Inr (v b, ?t')"
        using hit [OF b0 refl] by blast
      have "v b = v b0"
        using same b by blast
      then show ?thesis
        using r by simp
    qed
    have all: "\<forall>b0 \<in> set (all_buckets t).
                 KEY_COMPARE t (k b0) (k b0) \<longrightarrow>
                 (\<exists>b \<in> set (all_buckets ?t').
                    KEY_COMPARE t (k b) (k b0) \<and>
                    HASH_Retrieve_Extended ?t' (k b0) = Inr (v b, ?t')) \<and>
                 ((\<forall>b \<in> set (all_buckets ?t'). KEY_COMPARE t (k b) (k b0) \<longrightarrow> v b = v b0)
                    \<longrightarrow> HASH_Retrieve_Extended ?t' (k b0) = Inr (v b0, ?t'))"
    proof (intro ballI impI conjI)
      fix b0
      assume b0: "b0 \<in> set (all_buckets t)" and refl: "KEY_COMPARE t (k b0) (k b0)"
      show "\<exists>b \<in> set (all_buckets ?t').
              KEY_COMPARE t (k b) (k b0) \<and> HASH_Retrieve_Extended ?t' (k b0) = Inr (v b, ?t')"
        by (rule hit [OF b0 refl])
      show "HASH_Retrieve_Extended ?t' (k b0) = Inr (v b0, ?t')"
        if "\<forall>b \<in> set (all_buckets ?t'). KEY_COMPARE t (k b) (k b0) \<longrightarrow> v b = v b0"
        by (rule own [OF b0 refl that])
    qed
    show ?thesis
      by (rule exI [of _ ?t'], intro conjI impI ins sz ms all)
  qed
qed

text \<open>The table holding keys 9 and 0 (4 slots, \<open>uCount = 2\<close>): the insert of key 5
  makes \<open>count * 2 = 6 > 4\<close>, the table grows to 8 slots, it holds the three
  entries and keys 9 and 0 are retrieved with their values.\<close>

theorem insert_grows_table_witness:
  "table_shape tab_0_9 \<and> uSize tab_0_9 \<noteq> 0 \<and> hRefCount tab_0_9 = 0 \<and>
   2 * unat (uSize tab_0_9) < 2 ^ 32 \<and> 2 * (unat (uCount tab_0_9) + 1) < 2 ^ 32 \<and>
   unat (uSize tab_0_9) < 2 * (unat (uCount tab_0_9) + 1) \<and>
   HASH_Insert_Extended True True tab_0_9 [5] 1 = Inr (True, tab8_0_9_5) \<and>
   unat (uSize tab8_0_9_5) = 2 * unat (uSize tab_0_9) \<and>
   mset (all_buckets tab8_0_9_5)
     = add_mset \<lparr>ui32Sig = BUCKET_SIG, v = 1, k = [5]\<rparr> (mset (all_buckets tab_0_9)) \<and>
   HASH_Retrieve_Extended tab8_0_9_5 [9] = Inr (8, tab8_0_9_5) \<and>
   HASH_Retrieve_Extended tab8_0_9_5 [0] = Inr (7, tab8_0_9_5)"
proof -
  have h: "table_shape tab_0_9" "uSize tab_0_9 \<noteq> 0" "hRefCount tab_0_9 = 0"
          "2 * unat (uSize tab_0_9) < 2 ^ 32" "2 * (unat (uCount tab_0_9) + 1) < 2 ^ 32"
          "unat (uSize tab_0_9) < 2 * (unat (uCount tab_0_9) + 1)"
    by (simp_all add: fixture_defs table_shape_def)
  have e: "HASH_Insert_Extended True True tab_0_9 [5] 1 = Inr (True, tab8_0_9_5)"
    by (simp add: op_eval_defs hash_eval_defs fixture_defs replicate_eval)
  have r: "HASH_Retrieve_Extended tab8_0_9_5 [9] = Inr (8, tab8_0_9_5)"
          "HASH_Retrieve_Extended tab8_0_9_5 [0] = Inr (7, tab8_0_9_5)"
          "unat (uSize tab8_0_9_5) = 2 * unat (uSize tab_0_9)"
    by (simp_all add: op_eval_defs hash_eval_defs fixture_defs)
  obtain t' where o: "HASH_Insert_Extended True True tab_0_9 [5] 1 = Inr (True, t')"
    and m: "mset (all_buckets t')
              = add_mset \<lparr>ui32Sig = BUCKET_SIG, v = 1, k = [5]\<rparr> (mset (all_buckets tab_0_9))"
    using insert_grows_table [OF h, of True "[5]" 1] by (elim exE conjE)
  have "t' = tab8_0_9_5"
    using o e by simp
  then show ?thesis
    using m h e r by simp
qed

section \<open>Shrinking\<close>

text \<open>C3. On a table meeting the data model (slot array of \<open>uSize\<close> entries, \<open>uSize\<close>
  and \<open>uMinimumSize\<close> not zero) with the guard idle, \<open>HASH_Remove_Extended\<close> returns;
  the minimum size stays what it was and a size that was not below it is not below
  it afterwards. A remove that finds no match returns 0 and the table as it was. A
  remove that finds its key returns the value of the first match \<open>b0\<close> on the key's
  chain, the live entries afterwards are those before without \<open>b0\<close>, and \<open>uCount\<close>
  is one less. When it leaves \<open>S > count * 4\<close> and \<open>S > minimumSize\<close>, the table has
  \<open>max (S div 2) minimumSize\<close> slots if the new slot array could be allocated and \<open>S\<close>
  slots if not; after the successful shrink, a retrieve of the key of any
  remaining entry (a key that compares equal to itself) hits a live entry
  matching that key and returns its value, which is the entry's own value when
  all live entries matching the key carry it.\<close>

theorem remove_shrinks_table:
  assumes "table_shape t" and "uSize t \<noteq> 0" and "uMinimumSize t \<noteq> 0" and "hRefCount t = 0"
  shows "\<exists>val t'. HASH_Remove_Extended alloc_table t key = Inr (val, t') \<and>
           uMinimumSize t' = uMinimumSize t \<and>
           (uMinimumSize t \<le> uSize t \<longrightarrow> uMinimumSize t' \<le> uSize t') \<and>
           (\<not> finds t key \<longrightarrow> val = 0 \<and> t' = t) \<and>
           (finds t key \<longrightarrow>
              (\<exists>b0. Retrieve_chain t key (ppBucketTable t ! slot_of t (uSize t) key) = Some b0 \<and>
                    val = v b0 \<and>
                    mset (all_buckets t) = add_mset b0 (mset (all_buckets t'))) \<and>
              uCount t' = uCount t - 1 \<and>
              (4 * unat (uCount t - 1) < unat (uSize t) \<and> uMinimumSize t < uSize t \<longrightarrow>
                 unat (uSize t') =
                   (if alloc_table then max (unat (uSize t) div 2) (unat (uMinimumSize t))
                    else unat (uSize t)) \<and>
                 (alloc_table \<longrightarrow>
                    (\<forall>b1 \<in> set (all_buckets t').
                       KEY_COMPARE t (k b1) (k b1) \<longrightarrow>
                       (\<exists>b \<in> set (all_buckets t').
                          KEY_COMPARE t (k b) (k b1) \<and>
                          HASH_Retrieve_Extended t' (k b1) = Inr (v b, t')) \<and>
                       ((\<forall>b \<in> set (all_buckets t'). KEY_COMPARE t (k b) (k b1) \<longrightarrow> v b = v b1)
                          \<longrightarrow> HASH_Retrieve_Extended t' (k b1) = Inr (v b1, t'))))))"
proof (cases "finds t key")
  case False
  then have "Remove_chain t key (ppBucketTable t ! slot_of t (uSize t) key) = None"
    by (simp add: finds_def Remove_chain_None)
  then have rm0: "HASH_Remove_Extended alloc_table t key = Inr (0, t)"
    using remove_eq [OF assms(1-3), of alloc_table key] assms(4) by simp
  have vac: "finds t key \<longrightarrow> P" for P
    using False by simp
  show ?thesis
    by (rule exI [of _ 0], rule exI [of _ t], intro conjI rm0 vac) simp_all
next
  case True
  then obtain b0 c' where rc:
    "Remove_chain t key (ppBucketTable t ! slot_of t (uSize t) key) = Some (b0, c')"
    by (auto simp: finds_Remove_chain)
  let ?tr = "removed t key"
  let ?n = "shrunk_size t"
  define t' where "t' = (if shrink_due t \<and> alloc_table then rehashed ?tr ?n else ?tr)"
  have rm: "HASH_Remove_Extended alloc_table t key = Inr (v b0, t')"
    using remove_eq [OF assms(1-3), of alloc_table key] assms(4) rc by (simp add: t'_def)
  have n0: "?n \<noteq> 0" and nmin: "uMinimumSize t \<le> ?n"
    using shrunk_size_facts [OF assms(3)] by simp_all
  have min: "uMinimumSize t' = uMinimumSize t"
    by (simp add: t'_def rehashed_fields removed_fields)
  have floor: "uMinimumSize t' \<le> uSize t'" if "uMinimumSize t \<le> uSize t"
    using that nmin by (simp add: t'_def rehashed_fields removed_fields)
  have kc: "KEY_COMPARE ?tr = KEY_COMPARE t"
    by (simp add: same_strategy_KEY_COMPARE [OF removed_fields(4)])
  have lt: "slot_of t (uSize t) key < length (ppBucketTable t)"
    using slot_of_less [OF assms(2)] assms(1) by (simp add: table_shape_def)
  have first: "Retrieve_chain t key (ppBucketTable t ! slot_of t (uSize t) key) = Some b0"
    by (rule Remove_chain_first_match [OF rc])
  have "mset (all_buckets t') = mset (all_buckets ?tr)"
    using n0 by (simp add: t'_def rehashed_mset)
  then have entries: "mset (all_buckets t) = add_mset b0 (mset (all_buckets t'))"
    using removed_mset(1) [OF lt rc] by simp
  have cnt: "uCount t' = uCount t - 1"
    by (simp add: t'_def rehashed_fields removed_Some(2) [OF rc])
  have shrunk: "t' = rehashed ?tr ?n"
    if "4 * unat (uCount t - 1) < unat (uSize t)" "uMinimumSize t < uSize t" alloc_table
    using shrink_due_nat [OF that(1,2)] that(3) by (simp add: t'_def)
  have kept: "t' = ?tr" if "\<not> alloc_table"
    using that by (simp add: t'_def)
  have size': "unat (uSize t') =
                 (if alloc_table then max (unat (uSize t) div 2) (unat (uMinimumSize t))
                  else unat (uSize t))"
    if cond: "4 * unat (uCount t - 1) < unat (uSize t)" "uMinimumSize t < uSize t"
  proof (cases alloc_table)
    case False
    show ?thesis
      unfolding kept [OF False] using False by (simp add: removed_fields)
  next
    case True
    show ?thesis
      unfolding shrunk [OF cond True] using True by (simp add: rehashed_fields unat_shrunk_size)
  qed
  have hit: "\<exists>b \<in> set (all_buckets t').
               KEY_COMPARE t (k b) (k b1) \<and> HASH_Retrieve_Extended t' (k b1) = Inr (v b, t')"
    if cond: "4 * unat (uCount t - 1) < unat (uSize t)" "uMinimumSize t < uSize t"
      and at: alloc_table
      and b1: "b1 \<in> set (all_buckets t')" and refl: "KEY_COMPARE t (k b1) (k b1)" for b1
  proof -
    have t': "t' = rehashed ?tr ?n"
      by (rule shrunk [OF cond at])
    have set': "set (all_buckets (rehashed ?tr ?n)) = set (all_buckets ?tr)"
      using rehashed_mset [OF n0, of ?tr] by (rule mset_eq_setD)
    have "\<exists>b \<in> set (all_buckets ?tr).
            KEY_COMPARE ?tr (k b) (k b1) \<and>
            HASH_Retrieve_Extended (rehashed ?tr ?n) (k b1) = Inr (v b, rehashed ?tr ?n)"
    proof (rule retrieve_rehashed)
      show "?n \<noteq> 0" by (rule n0)
      show "hRefCount ?tr = 0" using assms(4) by (simp add: removed_fields)
      show "b1 \<in> set (all_buckets ?tr)" using b1 set' by (simp add: t')
      show "KEY_COMPARE ?tr (k b1) (k b1)" using refl by (simp add: kc)
      show "slot_of ?tr ?n (k b1) = slot_of ?tr ?n (k b1)" by simp
    qed
    then show ?thesis
      unfolding t' set' kc .
  qed
  have own: "HASH_Retrieve_Extended t' (k b1) = Inr (v b1, t')"
    if cond: "4 * unat (uCount t - 1) < unat (uSize t)" "uMinimumSize t < uSize t"
      and at: alloc_table
      and b1: "b1 \<in> set (all_buckets t')" and refl: "KEY_COMPARE t (k b1) (k b1)"
      and same: "\<forall>b \<in> set (all_buckets t'). KEY_COMPARE t (k b) (k b1) \<longrightarrow> v b = v b1"
    for b1
  proof -
    obtain b where b: "b \<in> set (all_buckets t')" "KEY_COMPARE t (k b) (k b1)"
      and r: "HASH_Retrieve_Extended t' (k b1) = Inr (v b, t')"
      using hit [OF cond at b1 refl] by blast
    have "v b = v b1"
      using same b by blast
    then show ?thesis
      using r by simp
  qed
  have found: "\<exists>b. Retrieve_chain t key (ppBucketTable t ! slot_of t (uSize t) key) = Some b \<and>
                   v b0 = v b \<and> mset (all_buckets t) = add_mset b (mset (all_buckets t'))"
    using first entries by blast
  show ?thesis
  proof (intro exI [of _ "v b0"] exI [of _ t'] conjI impI)
    show "HASH_Remove_Extended alloc_table t key = Inr (v b0, t')" by (rule rm)
    show "uMinimumSize t' = uMinimumSize t" by (rule min)
    show "uMinimumSize t' \<le> uSize t'" if "uMinimumSize t \<le> uSize t"
      using that by (rule floor)
    show "v b0 = 0" if "\<not> finds t key" using that True by simp
    show "t' = t" if "\<not> finds t key" using that True by simp
    show "\<exists>b. Retrieve_chain t key (ppBucketTable t ! slot_of t (uSize t) key) = Some b \<and>
               v b0 = v b \<and> mset (all_buckets t) = add_mset b (mset (all_buckets t'))"
      by (rule found)
    show "uCount t' = uCount t - 1" by (rule cnt)
    show "unat (uSize t') =
            (if alloc_table then max (unat (uSize t) div 2) (unat (uMinimumSize t))
             else unat (uSize t))"
      if "4 * unat (uCount t - 1) < unat (uSize t) \<and> uMinimumSize t < uSize t"
      by (rule size' [OF conjunct1 [OF that] conjunct2 [OF that]])
    show "\<forall>b1 \<in> set (all_buckets t').
            KEY_COMPARE t (k b1) (k b1) \<longrightarrow>
            (\<exists>b \<in> set (all_buckets t').
               KEY_COMPARE t (k b) (k b1) \<and>
               HASH_Retrieve_Extended t' (k b1) = Inr (v b, t')) \<and>
            ((\<forall>b \<in> set (all_buckets t'). KEY_COMPARE t (k b) (k b1) \<longrightarrow> v b = v b1)
               \<longrightarrow> HASH_Retrieve_Extended t' (k b1) = Inr (v b1, t'))"
      if c: "4 * unat (uCount t - 1) < unat (uSize t) \<and> uMinimumSize t < uSize t"
        and at: alloc_table
    proof (intro ballI impI conjI)
      fix b1
      assume b1: "b1 \<in> set (all_buckets t')" and refl: "KEY_COMPARE t (k b1) (k b1)"
      show "\<exists>b \<in> set (all_buckets t').
              KEY_COMPARE t (k b) (k b1) \<and> HASH_Retrieve_Extended t' (k b1) = Inr (v b, t')"
        by (rule hit [OF conjunct1 [OF c] conjunct2 [OF c] at b1 refl])
      show "HASH_Retrieve_Extended t' (k b1) = Inr (v b1, t')"
        if "\<forall>b \<in> set (all_buckets t'). KEY_COMPARE t (k b) (k b1) \<longrightarrow> v b = v b1"
        by (rule own [OF conjunct1 [OF c] conjunct2 [OF c] at b1 refl that])
    qed
  qed
qed

text \<open>The table of 8 slots and minimum size 4 that holds keys 0 and 5: removing key 5
  returns its value 1 and leaves one entry, the table shrinks to 4 slots, and key
  0 is retrieved with its value 7.\<close>

theorem remove_shrinks_table_witness:
  "table_shape tab8_0_5 \<and> uSize tab8_0_5 \<noteq> 0 \<and> uMinimumSize tab8_0_5 \<noteq> 0 \<and>
   hRefCount tab8_0_5 = 0 \<and> finds tab8_0_5 [5] \<and>
   4 * unat (uCount tab8_0_5 - 1) < unat (uSize tab8_0_5) \<and>
   uMinimumSize tab8_0_5 < uSize tab8_0_5 \<and>
   HASH_Remove_Extended True tab8_0_5 [5] = Inr (1, tab_0) \<and>
   Retrieve_chain tab8_0_5 [5] (ppBucketTable tab8_0_5 ! slot_of tab8_0_5 (uSize tab8_0_5) [5])
     = Some \<lparr>ui32Sig = BUCKET_SIG, v = 1, k = [5]\<rparr> \<and>
   all_buckets tab8_0_5 = [\<lparr>ui32Sig = BUCKET_SIG, v = 7, k = [0]\<rparr>,
                            \<lparr>ui32Sig = BUCKET_SIG, v = 1, k = [5]\<rparr>] \<and>
   all_buckets tab_0 = [\<lparr>ui32Sig = BUCKET_SIG, v = 7, k = [0]\<rparr>] \<and>
   uCount tab_0 = uCount tab8_0_5 - 1 \<and>
   unat (uSize tab_0) = max (unat (uSize tab8_0_5) div 2) (unat (uMinimumSize tab8_0_5)) \<and>
   uMinimumSize tab_0 \<le> uSize tab_0 \<and>
   HASH_Retrieve_Extended tab_0 [0] = Inr (7, tab_0)"
proof -
  have h: "table_shape tab8_0_5" "uSize tab8_0_5 \<noteq> 0" "uMinimumSize tab8_0_5 \<noteq> 0"
          "hRefCount tab8_0_5 = 0"
    by (simp_all add: fixture_defs table_shape_def)
  have f: "finds tab8_0_5 [5]" "4 * unat (uCount tab8_0_5 - 1) < unat (uSize tab8_0_5)"
          "uMinimumSize tab8_0_5 < uSize tab8_0_5"
    by (simp_all add: hash_eval_defs fixture_defs derived_eval_defs)
  have e: "HASH_Remove_Extended True tab8_0_5 [5] = Inr (1, tab_0)"
    by (simp add: op_eval_defs hash_eval_defs fixture_defs replicate_eval)
  have r: "unat (uSize tab_0) = max (unat (uSize tab8_0_5) div 2) (unat (uMinimumSize tab8_0_5))"
          "uMinimumSize tab_0 \<le> uSize tab_0"
          "all_buckets tab_0 = [\<lparr>ui32Sig = BUCKET_SIG, v = 7, k = [0]\<rparr>]"
          "HASH_Retrieve_Extended tab_0 [0] = Inr (7, tab_0)"
          "uCount tab_0 = uCount tab8_0_5 - 1"
          "all_buckets tab8_0_5 = [\<lparr>ui32Sig = BUCKET_SIG, v = 7, k = [0]\<rparr>,
                                   \<lparr>ui32Sig = BUCKET_SIG, v = 1, k = [5]\<rparr>]"
          "Retrieve_chain tab8_0_5 [5]
             (ppBucketTable tab8_0_5 ! slot_of tab8_0_5 (uSize tab8_0_5) [5])
             = Some \<lparr>ui32Sig = BUCKET_SIG, v = 1, k = [5]\<rparr>"
    by (simp_all add: op_eval_defs hash_eval_defs fixture_defs derived_eval_defs)
  obtain val t' where o: "HASH_Remove_Extended True tab8_0_5 [5] = Inr (val, t')"
    using remove_shrinks_table [OF h, of True "[5]"] by (elim exE conjE)
  show ?thesis
    using o h f e r by simp
qed

end
